theory Spec2Isabelle
  imports Main "HOL-Library.Multiset"
begin

section \<open>Data model\<close>

text \<open>
  The four JSDoc typedefs of \<^verbatim>\<open>src/index.js\<close> (\<^verbatim>\<open>Override\<close>, \<^verbatim>\<open>ScheduleElement\<close>,
  \<^verbatim>\<open>WorkingScheduleElement\<close> and the elements built inside the loops) all have the shape
  \<^verbatim>\<open>{user, start_at, end_at}\<close>; they differ in the type of the two boundaries only.
  One record, polymorphic in the boundary type, covers them.

  \<^item> A \<^verbatim>\<open>Date\<close> is modelled by its time value \<^verbatim>\<open>getTime()\<close>: an \<open>int\<close> of milliseconds
    since the epoch. Comparison of two \<^verbatim>\<open>Date\<close> objects with \<^verbatim>\<open><\<close> and \<^verbatim>\<open>></\<close> compares
    these numbers. Invalid dates (\<^verbatim>\<open>NaN\<close>) and the rounding of IEEE doubles beyond
    \<open>2^53\<close> are outside the model: arithmetic is exact.
  \<^item> A user is \<open>string option\<close>: \<open>None\<close> is the JavaScript value \<^verbatim>\<open>undefined\<close>, which
    \<^verbatim>\<open>users[i]\<close> yields for an index that is out of range or \<^verbatim>\<open>NaN\<close>.
\<close>

record 't element =
  user :: "string option"
  start_at :: 't
  end_at :: 't

type_synonym WorkingScheduleElement = "int element"
type_synonym ScheduleElement = "string element"

text \<open>
  \<^verbatim>\<open>ScheduleConfig\<close>. \<open>handover_start_at\<close> holds the time value of
  \<^verbatim>\<open>new Date(handover_start_at)\<close>; \<open>handover_interval_days\<close> is a whole number of days.
\<close>

record ScheduleConfig =
  users :: "string list"
  handover_start_at :: int
  handover_interval_days :: int

datatype error = InvalidConfig

section \<open>JavaScript primitives used by the program\<close>

text \<open>
  The remainder operator \<^verbatim>\<open>%\<close> on integral numbers: the result takes the sign of the
  dividend (truncated division), and a zero divisor gives \<^verbatim>\<open>NaN\<close>, here \<open>None\<close>.
\<close>

definition js_rem :: "int \<Rightarrow> int \<Rightarrow> int option" where
  "js_rem a b = (if b = 0 then None else Some (sgn a * (\<bar>a\<bar> mod \<bar>b\<bar>)))"

text \<open>Arithmetic on a possibly-\<^verbatim>\<open>NaN\<close> number: \<^verbatim>\<open>NaN\<close> is absorbing.\<close>

definition js_add :: "int option \<Rightarrow> int \<Rightarrow> int option" where
  "js_add a b = (case a of None \<Rightarrow> None | Some x \<Rightarrow> Some (x + b))"

definition js_rem_opt :: "int option \<Rightarrow> int \<Rightarrow> int option" where
  "js_rem_opt a b = (case a of None \<Rightarrow> None | Some x \<Rightarrow> js_rem x b)"

text \<open>Array read \<^verbatim>\<open>users[i]\<close>: \<^verbatim>\<open>undefined\<close> out of range and for \<^verbatim>\<open>NaN\<close>.\<close>

definition js_index :: "'a list \<Rightarrow> int option \<Rightarrow> 'a option" where
  "js_index xs i =
     (case i of None \<Rightarrow> None
      | Some k \<Rightarrow> if 0 \<le> k \<and> k < int (length xs) then Some (xs ! nat k) else None)"

subsection \<open>\<^verbatim>\<open>Date.prototype.toISOString\<close>\<close>

text \<open>
  The ECMAScript date algorithms on a time value: the day number, the civil date of a day
  number (proleptic Gregorian calendar), and the time within the day. The result of
  \<^verbatim>\<open>toISOString\<close> is \<^verbatim>\<open>YYYY-MM-DDTHH:mm:ss.sssZ\<close>, every field a fixed number of decimal
  digits; years outside \<open>0..9999\<close> are written with a sign and six digits.
\<close>

definition digitChar :: "nat \<Rightarrow> char" where
  "digitChar n = ''0123456789'' ! (n mod 10)"

definition pad2 :: "nat \<Rightarrow> string" where
  "pad2 n = [digitChar (n div 10), digitChar n]"

definition pad3 :: "nat \<Rightarrow> string" where
  "pad3 n = [digitChar (n div 100), digitChar (n div 10), digitChar n]"

definition pad4 :: "nat \<Rightarrow> string" where
  "pad4 n = [digitChar (n div 1000), digitChar (n div 100), digitChar (n div 10), digitChar n]"

definition pad6 :: "nat \<Rightarrow> string" where
  "pad6 n = [digitChar (n div 100000), digitChar (n div 10000), digitChar (n div 1000),
             digitChar (n div 100), digitChar (n div 10), digitChar n]"

text \<open>
  The civil date of a day number, by eras of 400 years (146097 days) that begin on
  1 March: \<open>dayOfEra\<close> is the day within the era, \<open>yearOfEra\<close> the year within the era,
  \<open>dayOfYear\<close> the day within that year (counted from 1 March) and \<open>monthIndex\<close> the
  month counted from March.
\<close>

definition dayOfEra :: "int \<Rightarrow> int" where
  "dayOfEra d = (d + 719468) mod 146097"

definition yearOfEraAt :: "int \<Rightarrow> int" where
  "yearOfEraAt doe = (doe - doe div 1460 + doe div 36524 - doe div 146096) div 365"

definition dayOfYearAt :: "int \<Rightarrow> int \<Rightarrow> int" where
  "dayOfYearAt doe yoe = doe - (365 * yoe + yoe div 4 - yoe div 100)"

definition dayOfYear :: "int \<Rightarrow> int" where
  "dayOfYear d = dayOfYearAt (dayOfEra d) (yearOfEraAt (dayOfEra d))"

definition monthIndex :: "int \<Rightarrow> int" where
  "monthIndex d = (5 * dayOfYear d + 2) div 153"

definition monthOfMonthIndex :: "int \<Rightarrow> int" where
  "monthOfMonthIndex mp = (if mp < 10 then mp + 3 else mp - 9)"

definition DateFromDay :: "int \<Rightarrow> int" where
  "DateFromDay d = dayOfYear d - (153 * monthIndex d + 2) div 5 + 1"

definition MonthFromDay :: "int \<Rightarrow> int" where
  "MonthFromDay d = monthOfMonthIndex (monthIndex d)"

definition YearFromDay :: "int \<Rightarrow> int" where
  "YearFromDay d =
     yearOfEraAt (dayOfEra d) + ((d + 719468) div 146097) * 400
       + (if MonthFromDay d \<le> 2 then 1 else 0)"

definition yearString :: "int \<Rightarrow> string" where
  "yearString y =
     (if 0 \<le> y \<and> y \<le> 9999 then pad4 (nat y)
      else (if y < 0 then ''-'' else ''+'') @ pad6 (nat \<bar>y\<bar>))"

definition toISOString :: "int \<Rightarrow> string" where
  "toISOString t =
     yearString (YearFromDay (t div 86400000)) @ ''-''
     @ pad2 (nat (MonthFromDay (t div 86400000))) @ ''-''
     @ pad2 (nat (DateFromDay (t div 86400000))) @ ''T''
     @ pad2 (nat (t div 3600000 mod 24)) @ '':''
     @ pad2 (nat (t div 60000 mod 60)) @ '':''
     @ pad2 (nat (t div 1000 mod 60)) @ ''.''
     @ pad3 (nat (t mod 1000)) @ ''Z''"

section \<open>The program\<close>

text \<open>
  \<^verbatim>\<open>dateIso(d)\<close>: \<^verbatim>\<open>d.toISOString().split('.')[0] + "Z"\<close>. The first piece of the split is
  the text before the first full stop.
\<close>

definition dateIso :: "int \<Rightarrow> string" where
  "dateIso d = takeWhile (\<lambda>c. c \<noteq> CHR ''.'') (toISOString d) @ ''Z''"

text \<open>
  The \<^verbatim>\<open>while\<close> loop of \<^verbatim>\<open>generateBaseSchedule\<close>, with its three mutable variables
  \<^verbatim>\<open>baseShifts\<close>, \<^verbatim>\<open>current_shift_start_ms\<close> and \<^verbatim>\<open>current_user_index\<close> as arguments.
  The loop has no bound of its own, so it is a partial function: \<open>None\<close> is a loop that
  never ends.
\<close>

partial_function (option) baseLoop ::
  "string list \<Rightarrow> int \<Rightarrow> int \<Rightarrow> WorkingScheduleElement list \<Rightarrow> int \<Rightarrow> int option
     \<Rightarrow> WorkingScheduleElement list option"
where
  "baseLoop us interval_ms until baseShifts current_shift_start_ms current_user_index =
     (if current_shift_start_ms < until then
        let current_shift_end_ms = current_shift_start_ms + interval_ms in
        baseLoop us interval_ms until
          (baseShifts @
             [\<lparr>user = js_index us current_user_index,
               start_at = current_shift_start_ms,
               end_at = current_shift_end_ms\<rparr>])
          current_shift_end_ms
          (js_rem_opt (js_add current_user_index 1) (int (length us)))
      else Some baseShifts)"

declare baseLoop.simps [code]

text \<open>
  \<^verbatim>\<open>generateBaseSchedule(config, from, until)\<close>. The result is \<open>None\<close> if the loop does not
  end, \<open>Some (Inl InvalidConfig)\<close> for the \<^verbatim>\<open>throw\<close>, \<open>Some (Inr shifts)\<close> for a return.
\<close>

definition generateBaseSchedule ::
  "ScheduleConfig \<Rightarrow> int \<Rightarrow> int \<Rightarrow> (error + WorkingScheduleElement list) option"
where
  "generateBaseSchedule config from until =
     (let num_users = int (length (users config));
          handover_start_ms = handover_start_at config;
          interval_ms = handover_interval_days config * 24 * 60 * 60 * 1000
      in if interval_ms \<le> 0 then Some (Inl InvalidConfig)
         else
           let elapsed_ms = from - handover_start_ms;
               intervals_passed = elapsed_ms div interval_ms;
               current_shift_start_ms = handover_start_ms + intervals_passed * interval_ms;
               current_user_index =
                 js_rem_opt (js_add (js_rem intervals_passed num_users) num_users) num_users
           in map_option Inr
                (baseLoop (users config) interval_ms until []
                   current_shift_start_ms current_user_index))"

text \<open>
  The inner \<^verbatim>\<open>for\<close> loop of \<^verbatim>\<open>applyOverrides\<close>: the shifts pushed to \<^verbatim>\<open>nextSchedule\<close> for
  one override, in the order of the pushes.
\<close>

fun splitShifts ::
  "WorkingScheduleElement \<Rightarrow> WorkingScheduleElement list \<Rightarrow> WorkingScheduleElement list"
where
  "splitShifts override [] = []"
| "splitShifts override (shift # workingSchedule) =
     (if \<not> (start_at override < end_at shift \<and> end_at override > start_at shift)
      then shift # splitShifts override workingSchedule
      else
        (if start_at shift < start_at override
         then [\<lparr>user = user shift, start_at = start_at shift, end_at = start_at override\<rparr>]
         else [])
        @ (if end_at shift > end_at override
           then [\<lparr>user = user shift, start_at = end_at override, end_at = end_at shift\<rparr>]
           else [])
        @ splitShifts override workingSchedule)"

text \<open>
  One round of the outer loop: split, push the override, sort by start. \<^verbatim>\<open>Array.sort\<close> is
  stable, as is \<open>sort_key\<close>.
\<close>

definition applyOverride ::
  "WorkingScheduleElement list \<Rightarrow> WorkingScheduleElement \<Rightarrow> WorkingScheduleElement list"
where
  "applyOverride workingSchedule override =
     sort_key start_at (splitShifts override workingSchedule @ [override])"

fun overrideLoop ::
  "WorkingScheduleElement list \<Rightarrow> WorkingScheduleElement list \<Rightarrow> WorkingScheduleElement list"
where
  "overrideLoop workingSchedule [] = workingSchedule"
| "overrideLoop workingSchedule (override # sortedOverrides) =
     overrideLoop (applyOverride workingSchedule override) sortedOverrides"

definition applyOverrides ::
  "WorkingScheduleElement list \<Rightarrow> WorkingScheduleElement list \<Rightarrow> WorkingScheduleElement list"
where
  "applyOverrides baseSchedule parsedOverrides =
     overrideLoop baseSchedule (sort_key start_at parsedOverrides)"

text \<open>\<^verbatim>\<open>truncateAndFilterSchedule(schedule, from, until)\<close>.\<close>

fun truncateAndFilterSchedule ::
  "WorkingScheduleElement list \<Rightarrow> int \<Rightarrow> int \<Rightarrow> ScheduleElement list"
where
  "truncateAndFilterSchedule [] from until = []"
| "truncateAndFilterSchedule (shift # schedule) from until =
     (if start_at shift < until \<and> end_at shift > from then
        (if max (start_at shift) from < min (end_at shift) until
         then [\<lparr>user = user shift,
                 start_at = dateIso (max (start_at shift) from),
                 end_at = dateIso (min (end_at shift) until)\<rparr>]
         else [])
        @ truncateAndFilterSchedule schedule from until
      else truncateAndFilterSchedule schedule from until)"

text \<open>
  \<^verbatim>\<open>makeSchedule(config, overrides, fromDate, untilDate)\<close>. An override of the input
  carries the time values of \<^verbatim>\<open>new Date(ov.start_at)\<close> and \<^verbatim>\<open>new Date(ov.end_at)\<close>; the
  \<^verbatim>\<open>map\<close> copies the three fields.
\<close>

definition makeSchedule ::
  "ScheduleConfig \<Rightarrow> WorkingScheduleElement list \<Rightarrow> int \<Rightarrow> int
     \<Rightarrow> (error + ScheduleElement list) option"
where
  "makeSchedule config overrides fromDate untilDate =
     (case generateBaseSchedule config fromDate untilDate of
        None \<Rightarrow> None
      | Some (Inl e) \<Rightarrow> Some (Inl e)
      | Some (Inr baseShifts) \<Rightarrow>
          Some (Inr (truncateAndFilterSchedule
                       (applyOverrides baseShifts
                          (map (\<lambda>ov. \<lparr>user = user ov, start_at = start_at ov,
                                       end_at = end_at ov\<rparr>) overrides))
                       fromDate untilDate)))"

section \<open>Notions used to state the properties\<close>

text \<open>The interval of a configuration, in milliseconds.\<close>

definition interval_ms :: "ScheduleConfig \<Rightarrow> int" where
  "interval_ms config = handover_interval_days config * 24 * 60 * 60 * 1000"

text \<open>
  Dates. The program computes with IEEE doubles and stores every boundary as a \<^verbatim>\<open>Date\<close>;
  the definitions above compute with exact integers, and a shift of \<open>generateBaseSchedule\<close>
  holds the number that the program passes to \<^verbatim>\<open>new Date\<close>. \<open>newDate ms\<close> is the time value
  of \<^verbatim>\<open>new Date(ms)\<close>: \<open>ms\<close> itself within 8.64e15 milliseconds of the epoch, and \<open>None\<close>
  for the Invalid Date (time value \<^verbatim>\<open>NaN\<close>) beyond. \<open>dateLe\<close> and \<open>dateEq\<close> are \<^verbatim>\<open><=\<close> on
  two Dates and \<^verbatim>\<open>===\<close> on their time values: both are false when a Date is invalid.
\<close>

definition newDate :: "int \<Rightarrow> int option" where
  "newDate ms = (if \<bar>ms\<bar> \<le> 8640000000000000 then Some ms else None)"

definition dateLe :: "int option \<Rightarrow> int option \<Rightarrow> bool" where
  "dateLe a b =
     (case a of None \<Rightarrow> False | Some x \<Rightarrow> (case b of None \<Rightarrow> False | Some y \<Rightarrow> x \<le> y))"

definition dateEq :: "int option \<Rightarrow> int option \<Rightarrow> bool" where
  "dateEq a b =
     (case a of None \<Rightarrow> False | Some x \<Rightarrow> (case b of None \<Rightarrow> False | Some y \<Rightarrow> x = y))"

text \<open>Every boundary of a schedule is stored as a valid Date.\<close>

definition validDates :: "WorkingScheduleElement list \<Rightarrow> bool" where
  "validDates schedule =
     list_all (\<lambda>s. newDate (start_at s) = Some (start_at s) \<and> newDate (end_at s) = Some (end_at s))
       schedule"

text \<open>
  The inputs on which the doubles of \<^verbatim>\<open>generateBaseSchedule\<close> are exact and every Date it
  makes is valid: the anchor is a valid Date, the window extended by one interval on each
  side lies in the range of valid Dates, and the elapsed time plus one interval is at most
  \<open>2^53\<close>, so that the quotient, its floor, the product and the sums of the program are the
  exact integers. The interval is a whole number of days.
\<close>

definition exactRange :: "ScheduleConfig \<Rightarrow> int \<Rightarrow> int \<Rightarrow> bool" where
  "exactRange config from until =
     (\<bar>handover_start_at config\<bar> \<le> 8640000000000000
      \<and> - 8640000000000000 \<le> from - interval_ms config
      \<and> until + interval_ms config \<le> 8640000000000000
      \<and> \<bar>from - handover_start_at config\<bar> + interval_ms config \<le> 9007199254740992)"

text \<open>A shift is active at instant \<open>t\<close> when \<open>t\<close> lies in its half-open interval.\<close>

definition activeAt :: "int \<Rightarrow> WorkingScheduleElement \<Rightarrow> bool" where
  "activeAt t shift = (start_at shift \<le> t \<and> t < end_at shift)"

text \<open>The users a schedule assigns at \<open>t\<close>, one for every shift active at \<open>t\<close>.\<close>

definition assignedAt :: "WorkingScheduleElement list \<Rightarrow> int \<Rightarrow> string option list" where
  "assignedAt schedule t = map user (filter (activeAt t) schedule)"

text \<open>The half-open overlap test of the program, on two overrides.\<close>

definition overlaps :: "WorkingScheduleElement \<Rightarrow> WorkingScheduleElement \<Rightarrow> bool" where
  "overlaps a b = (start_at a < end_at b \<and> end_at a > start_at b)"

fun nonOverlapping :: "WorkingScheduleElement list \<Rightarrow> bool" where
  "nonOverlapping [] = True"
| "nonOverlapping (a # rest) = ((\<forall>b \<in> set rest. \<not> overlaps a b) \<and> nonOverlapping rest)"

definition wellFormed :: "WorkingScheduleElement \<Rightarrow> bool" where
  "wellFormed ov = (start_at ov < end_at ov)"

text \<open>
  A valid schedule: sorted by start, and every shift ends where the next one starts.
\<close>

definition validSchedule :: "WorkingScheduleElement list \<Rightarrow> bool" where
  "validSchedule schedule =
     (sorted (map start_at schedule) \<and>
      successively (\<lambda>a b. end_at a = start_at b) schedule)"

text \<open>The same invariant, read on the Dates that the program stores.\<close>

definition validStored :: "WorkingScheduleElement list \<Rightarrow> bool" where
  "validStored schedule =
     (sorted_wrt (\<lambda>a b. dateLe (newDate (start_at a)) (newDate (start_at b))) schedule
      \<and> successively (\<lambda>a b. dateEq (newDate (end_at a)) (newDate (start_at b))) schedule)"

text \<open>The shifts of a schedule that meet the range \<open>[lo, hi)\<close>.\<close>

definition withinRange :: "int \<Rightarrow> int \<Rightarrow> WorkingScheduleElement list \<Rightarrow> WorkingScheduleElement list" where
  "withinRange lo hi schedule = filter (\<lambda>s. start_at s < hi \<and> lo < end_at s) schedule"

text \<open>
  Shifts of positive length, each ending no later than every later one starts.
\<close>

definition ordered :: "WorkingScheduleElement list \<Rightarrow> bool" where
  "ordered schedule =
     (sorted_wrt (\<lambda>a b. end_at a \<le> start_at b) schedule \<and>
      (\<forall>s \<in> set schedule. start_at s < end_at s))"

text \<open>
  The clipped intervals that \<open>truncateAndFilterSchedule\<close> formats: a shift is kept when
  its intersection with the window is not empty.
\<close>

definition clipShift :: "int \<Rightarrow> int \<Rightarrow> WorkingScheduleElement \<Rightarrow> WorkingScheduleElement" where
  "clipShift from until s =
     \<lparr>user = user s, start_at = max (start_at s) from, end_at = min (end_at s) until\<rparr>"

definition meetsWindow :: "int \<Rightarrow> int \<Rightarrow> WorkingScheduleElement \<Rightarrow> bool" where
  "meetsWindow from until s = (max (start_at s) from < min (end_at s) until)"

definition clipShifts :: "int \<Rightarrow> int \<Rightarrow> WorkingScheduleElement list \<Rightarrow> WorkingScheduleElement list" where
  "clipShifts from until schedule =
     map (clipShift from until) (filter (meetsWindow from until) schedule)"

text \<open>The part of a shift before an instant, and the part from an instant on.\<close>

definition beforePart :: "int \<Rightarrow> WorkingScheduleElement \<Rightarrow> WorkingScheduleElement" where
  "beforePart b s = \<lparr>user = user s, start_at = start_at s, end_at = min (end_at s) b\<rparr>"

definition afterPart :: "int \<Rightarrow> WorkingScheduleElement \<Rightarrow> WorkingScheduleElement" where
  "afterPart a s = \<lparr>user = user s, start_at = max (start_at s) a, end_at = end_at s\<rparr>"

definition formatShift :: "WorkingScheduleElement \<Rightarrow> ScheduleElement" where
  "formatShift s = \<lparr>user = user s, start_at = dateIso (start_at s), end_at = dateIso (end_at s)\<rparr>"

text \<open>
  The shifts of the loop of \<open>generateBaseSchedule\<close> from a given state on, as a total
  function: it stops at once when the interval is not positive.
\<close>

function shiftsFrom ::
  "string list \<Rightarrow> int \<Rightarrow> int \<Rightarrow> int \<Rightarrow> int option \<Rightarrow> WorkingScheduleElement list"
where
  "shiftsFrom us ival until cur idx =
     (if cur < until \<and> 0 < ival
      then \<lparr>user = js_index us idx, start_at = cur, end_at = cur + ival\<rparr>
           # shiftsFrom us ival until (cur + ival)
               (js_rem_opt (js_add idx 1) (int (length us)))
      else [])"
  by pat_completeness auto
termination
  by (relation "measure (\<lambda>(us, ival, until, cur, idx). nat (until - cur))") auto

declare shiftsFrom.simps [simp del]

text \<open>
  A string of the form \<^verbatim>\<open>YYYY-MM-DDTHH:MM:SSZ\<close>: twenty characters, decimal digits
  except for the separators.
\<close>

definition isDigit :: "char \<Rightarrow> bool" where
  "isDigit c = (c \<in> set ''0123456789'')"

definition isoSecondsForm :: "string \<Rightarrow> bool" where
  "isoSecondsForm str =
     (length str = 20
      \<and> list_all (\<lambda>i. isDigit (str ! i)) [0, 1, 2, 3, 5, 6, 8, 9, 11, 12, 14, 15, 17, 18]
      \<and> str ! 4 = CHR ''-'' \<and> str ! 7 = CHR ''-'' \<and> str ! 10 = CHR ''T''
      \<and> str ! 13 = CHR '':'' \<and> str ! 16 = CHR '':'' \<and> str ! 19 = CHR ''Z'')"

text \<open>
  The instant that a timestamp \<^verbatim>\<open>YYYY-MM-DDTHH:MM:SSZ\<close> denotes, in milliseconds since the
  epoch. The fields are read as decimal numbers; the day number of a civil date is
  computed by eras of 400 years that begin on 1 March, as above.
\<close>

definition digitVal :: "char \<Rightarrow> int" where
  "digitVal c = int (of_char c) - 48"

definition numberOf :: "string \<Rightarrow> int" where
  "numberOf cs = foldl (\<lambda>n c. 10 * n + digitVal c) 0 cs"

definition yearFromMarch :: "int \<Rightarrow> int \<Rightarrow> int" where
  "yearFromMarch y m = y - (if m \<le> 2 then 1 else 0)"

definition monthIndexOf :: "int \<Rightarrow> int" where
  "monthIndexOf m = (if 2 < m then m - 3 else m + 9)"

definition dayOfYearOf :: "int \<Rightarrow> int \<Rightarrow> int" where
  "dayOfYearOf m d = (153 * monthIndexOf m + 2) div 5 + d - 1"

definition daysFromCivil :: "int \<Rightarrow> int \<Rightarrow> int \<Rightarrow> int" where
  "daysFromCivil y m d =
     yearFromMarch y m div 400 * 146097
       + (365 * (yearFromMarch y m mod 400) + yearFromMarch y m mod 400 div 4
            - yearFromMarch y m mod 400 div 100 + dayOfYearOf m d)
       - 719468"

definition instantOfIso :: "string \<Rightarrow> int" where
  "instantOfIso str =
     (((daysFromCivil (numberOf (take 4 str)) (numberOf (take 2 (drop 5 str)))
           (numberOf (take 2 (drop 8 str))) * 24
         + numberOf (take 2 (drop 11 str))) * 60
        + numberOf (take 2 (drop 14 str))) * 60
       + numberOf (take 2 (drop 17 str))) * 1000"

text \<open>
  An instant whose year has four digits (0000 to 9999); a schedule and a window whose
  clipped boundaries are all such instants; a schedule and a window whose boundaries are
  all whole seconds.
\<close>

definition fourDigitYear :: "int \<Rightarrow> bool" where
  "fourDigitYear t =
     (0 \<le> YearFromDay (t div 86400000) \<and> YearFromDay (t div 86400000) \<le> 9999)"

definition fourDigitYears :: "WorkingScheduleElement list \<Rightarrow> int \<Rightarrow> int \<Rightarrow> bool" where
  "fourDigitYears schedule from until =
     list_all (\<lambda>s. fourDigitYear (max (start_at s) from) \<and> fourDigitYear (min (end_at s) until))
       schedule"

definition wholeSeconds :: "WorkingScheduleElement list \<Rightarrow> int \<Rightarrow> int \<Rightarrow> bool" where
  "wholeSeconds schedule from until =
     (from mod 1000 = 0 \<and> until mod 1000 = 0
      \<and> list_all (\<lambda>s. start_at s mod 1000 = 0 \<and> end_at s mod 1000 = 0) schedule)"

text \<open>
  Example data: the rotation of two users from 2025-01-01T00:00:00Z with a handover every
  day, and an override from 2025-01-01T12:00:00Z to 2025-01-02T12:00:00Z.
\<close>

definition exampleConfig :: ScheduleConfig where
  "exampleConfig =
     \<lparr>users = [''A'', ''B''], handover_start_at = 1735689600000, handover_interval_days = 1\<rparr>"

definition exampleOverride :: WorkingScheduleElement where
  "exampleOverride = \<lparr>user = Some ''C'', start_at = 1735732800000, end_at = 1735819200000\<rparr>"

section \<open>The base schedule\<close>

lemma baseLoop_shiftsFrom:
  "0 < ival \<Longrightarrow> baseLoop us ival until acc cur idx = Some (acc @ shiftsFrom us ival until cur idx)"
proof (induction us ival until cur idx arbitrary: acc rule: shiftsFrom.induct)
  case (1 us ival until cur idx)
  show ?case
  proof (cases "cur < until")
    case True
    with 1 show ?thesis
      by (subst baseLoop.simps, subst shiftsFrom.simps) (simp add: Let_def)
  next
    case False
    then show ?thesis
      by (subst baseLoop.simps, subst shiftsFrom.simps) simp
  qed
qed

lemma generateBaseSchedule_eq:
  "generateBaseSchedule config from until =
     (if interval_ms config \<le> 0 then Some (Inl InvalidConfig)
      else Some (Inr (shiftsFrom (users config) (interval_ms config) until
             (handover_start_at config
                + (from - handover_start_at config) div interval_ms config * interval_ms config)
             (js_rem_opt
                (js_add (js_rem ((from - handover_start_at config) div interval_ms config)
                           (int (length (users config))))
                   (int (length (users config))))
                (int (length (users config)))))))"
  by (simp add: generateBaseSchedule_def interval_ms_def Let_def baseLoop_shiftsFrom)

lemma js_rem_nonneg: "0 \<le> a \<Longrightarrow> 0 < b \<Longrightarrow> js_rem a b = Some (a mod b)"
  by (simp add: js_rem_def sgn_if)

lemma js_rem_mod: 
  assumes "0 < b" 
  shows "\<exists>r. js_rem a b = Some r \<and> - b < r \<and> r < b \<and> r mod b = a mod b"
proof (cases "0 \<le> a")
  case True
  moreover have "0 \<le> a mod b" using assms by simp
  then have "- b < a mod b" using assms by linarith
  ultimately show ?thesis using assms by (simp add: js_rem_nonneg)
next
  case False
  then have a: "a < 0" by simp
  have "(- ((- a) mod b)) mod b = a mod b"
    by (metis mod_minus_eq minus_minus)
  moreover have "0 \<le> (- a) mod b" "(- a) mod b < b" using assms by simp_all
  then have "- b < - ((- a) mod b)" "- ((- a) mod b) < b" using assms by linarith+
  ultimately show ?thesis using a assms by (simp add: js_rem_def sgn_if)
qed

lemma user_index_normalised:
  assumes "0 < n"
  shows "js_rem_opt (js_add (js_rem k n) n) n = Some (k mod n)"
proof -
  obtain r where r: "js_rem k n = Some r" "- n < r" "r < n" "r mod n = k mod n"
    using js_rem_mod [OF assms, of k] by blast
  have "js_rem (r + n) n = Some ((r + n) mod n)"
    using r assms by (intro js_rem_nonneg) simp_all
  then show ?thesis using r by (simp add: js_rem_opt_def js_add_def)
qed

lemma next_index:
  "0 \<le> i \<Longrightarrow> 0 < n \<Longrightarrow> js_rem_opt (js_add (Some i) 1) n = Some ((i + 1) mod n)"
  by (simp add: js_rem_opt_def js_add_def js_rem_nonneg)

lemma shiftsFrom_Nil_iff: "shiftsFrom us ival until cur idx = [] \<longleftrightarrow> \<not> (cur < until \<and> 0 < ival)"
  by (subst shiftsFrom.simps) simp

lemma shiftsFrom_hd:
  "cur < until \<Longrightarrow> 0 < ival \<Longrightarrow>
   hd (shiftsFrom us ival until cur idx) = \<lparr>user = js_index us idx, start_at = cur, end_at = cur + ival\<rparr>"
  by (subst shiftsFrom.simps) simp

lemma shiftsFrom_member:
  "s \<in> set (shiftsFrom us ival until cur idx) \<Longrightarrow>
     0 < ival \<and> start_at s < until \<and> end_at s = start_at s + ival \<and>
     (\<exists>k::nat. start_at s = cur + int k * ival)"
proof (induction us ival until cur idx rule: shiftsFrom.induct)
  case (1 us ival until cur idx)
  from "1.prems" have run: "cur < until" "0 < ival"
    by (subst (asm) shiftsFrom.simps, simp split: if_splits)+
  from "1.prems" run consider
    "s = \<lparr>user = js_index us idx, start_at = cur, end_at = cur + ival\<rparr>"
    | "s \<in> set (shiftsFrom us ival until (cur + ival) (js_rem_opt (js_add idx 1) (int (length us))))"
    by (subst (asm) shiftsFrom.simps) auto
  then show ?case
  proof cases
    case 1
    with run show ?thesis by (auto intro: exI [of _ 0])
  next
    case 2
    with "1.IH" run obtain k :: nat where
      "0 < ival \<and> start_at s < until \<and> end_at s = start_at s + ival" "start_at s = cur + ival + int k * ival"
      by blast
    then show ?thesis by (auto intro!: exI [of _ "Suc k"] simp: algebra_simps)
  qed
qed

lemma shiftsFrom_sorted: "sorted (map start_at (shiftsFrom us ival until cur idx))"
proof (induction us ival until cur idx rule: shiftsFrom.induct)
  case (1 us ival until cur idx)
  show ?case
  proof (cases "cur < until \<and> 0 < ival")
    case True
    have "cur \<le> start_at s"
      if mem: "s \<in> set (shiftsFrom us ival until (cur + ival) (js_rem_opt (js_add idx 1) (int (length us))))" for s
    proof -
      obtain k :: nat where "start_at s = cur + ival + int k * ival"
        using shiftsFrom_member [OF mem] by blast
      moreover have "0 \<le> int k * ival" using True by simp
      ultimately show ?thesis using True by linarith
    qed
    with True "1.IH" show ?thesis
      by (auto simp: shiftsFrom.simps [of us ival until cur idx])
  next
    case False
    then have "shiftsFrom us ival until cur idx = []" by (simp add: shiftsFrom_Nil_iff)
    then show ?thesis by simp
  qed
qed

lemma shiftsFrom_gapless:
  "successively (\<lambda>a b. end_at a = start_at b) (shiftsFrom us ival until cur idx)"
proof (induction us ival until cur idx rule: shiftsFrom.induct)
  case (1 us ival until cur idx)
  show ?case
  proof (cases "cur < until \<and> 0 < ival")
    case True
    let ?rest = "shiftsFrom us ival until (cur + ival) (js_rem_opt (js_add idx 1) (int (length us)))"
    have "?rest = [] \<or> start_at (hd ?rest) = cur + ival"
      using True by (simp add: shiftsFrom_Nil_iff shiftsFrom_hd)
    moreover have "successively (\<lambda>a b. end_at a = start_at b) ?rest"
      using True "1.IH" by simp
    ultimately have "successively (\<lambda>a b. end_at a = start_at b)
        (\<lparr>user = js_index us idx, start_at = cur, end_at = cur + ival\<rparr> # ?rest)"
      by (auto simp: successively_Cons)
    with True show ?thesis
      by (simp add: shiftsFrom.simps [of us ival until cur idx])
  next
    case False
    then have "shiftsFrom us ival until cur idx = []" by (simp add: shiftsFrom_Nil_iff)
    then show ?thesis by simp
  qed
qed

lemma shiftsFrom_last:
  "cur < until \<Longrightarrow> 0 < ival \<Longrightarrow> until \<le> end_at (last (shiftsFrom us ival until cur idx))"
proof (induction us ival until cur idx rule: shiftsFrom.induct)
  case (1 us ival until cur idx)
  let ?rest = "shiftsFrom us ival until (cur + ival) (js_rem_opt (js_add idx 1) (int (length us)))"
  show ?case
  proof (cases "cur + ival < until")
    case True
    then have "?rest \<noteq> []" using "1.prems" by (simp add: shiftsFrom_Nil_iff)
    moreover have "until \<le> end_at (last ?rest)" using 1 True by simp
    ultimately show ?thesis using "1.prems"
      by (simp add: shiftsFrom.simps [of us ival until cur idx])
  next
    case False
    then have "?rest = []" by (simp add: shiftsFrom_Nil_iff)
    then show ?thesis using "1.prems" False
      by (simp add: shiftsFrom.simps [of us ival until cur idx])
  qed
qed

lemma shiftsFrom_user:
  assumes "0 \<le> i" "i < int (length us)"
    and "s \<in> set (shiftsFrom us ival until cur (Some i))"
  shows "user s = Some (us ! nat ((i + (start_at s - cur) div ival) mod int (length us)))"
  using assms
proof (induction us ival until cur "Some i" arbitrary: i rule: shiftsFrom.induct)
  case (1 us ival until cur)
  let ?n = "int (length us)"
  have n: "0 < ?n" using "1.prems" by linarith
  from "1.prems" have run: "cur < until" "0 < ival"
    by (subst (asm) shiftsFrom.simps, simp split: if_splits)+
  have nxt: "js_rem_opt (js_add (Some i) 1) ?n = Some ((i + 1) mod ?n)"
    using "1.prems" n by (simp add: next_index)
  from "1.prems" run consider
    "s = \<lparr>user = js_index us (Some i), start_at = cur, end_at = cur + ival\<rparr>"
    | "s \<in> set (shiftsFrom us ival until (cur + ival) (Some ((i + 1) mod ?n)))"
    by (subst (asm) shiftsFrom.simps) (auto simp: nxt)
  then show ?case
  proof cases
    case 1
    with "1.prems" show ?thesis by (simp add: js_index_def)
  next
    case 2
    have "user s = Some (us ! nat (((i + 1) mod ?n + (start_at s - (cur + ival)) div ival) mod ?n))"
      using "1.hyps" [of "(i + 1) mod ?n"] run nxt n 2 by simp
    moreover have "(start_at s - (cur + ival)) div ival = (start_at s - cur) div ival - 1"
    proof -
      have "start_at s - (cur + ival) = (start_at s - cur) + (- 1) * ival" by simp
      then show ?thesis using run by (metis div_mult_self1 less_irrefl add.commute uminus_add_conv_diff)
    qed
    moreover have "((i + 1) mod ?n + ((start_at s - cur) div ival - 1)) mod ?n
        = (i + (start_at s - cur) div ival) mod ?n"
      by (metis (no_types, opaque_lifting) add.assoc add.commute add_diff_cancel_left' diff_add_cancel mod_add_left_eq)
    ultimately show ?thesis by simp
  qed
qed

section \<open>Errors of the base schedule generator\<close>

text \<open>
  Claim C4, as amended. \<open>generateBaseSchedule\<close> always returns, and it returns the
  \<open>InvalidConfig\<close> error exactly when the interval in milliseconds is not positive,
  whatever the window and the users are; for a positive interval it returns a list of
  shifts. An empty user list is not checked.
\<close>

theorem generateBaseSchedule_error_iff:
  "(generateBaseSchedule config from until = Some (Inl InvalidConfig))
     = (interval_ms config \<le> 0)
   \<and> (\<exists>shifts. generateBaseSchedule config from until = Some (Inr shifts))
     = (0 < interval_ms config)"
  by (auto simp: generateBaseSchedule_eq)

text \<open>
  Claim C4 as stated fails: with an empty user list and an interval of one day no error
  is raised. The index is \<^verbatim>\<open>NaN\<close> and the shift is assigned \<^verbatim>\<open>undefined\<close>.
\<close>

theorem generateBaseSchedule_empty_users_no_error:
  "generateBaseSchedule \<lparr>users = [], handover_start_at = 0, handover_interval_days = 1\<rparr>
      0 86400000
   = Some (Inr [\<lparr>user = None, start_at = 0, end_at = 86400000\<rparr>])"
  by (simp add: generateBaseSchedule_eq interval_ms_def shiftsFrom.simps
      js_rem_def js_add_def js_rem_opt_def js_index_def)

section \<open>Override application, instant by instant\<close>

subsection \<open>Shifts active at an instant\<close>

lemma splitShifts_append:
  "splitShifts ov (xs @ ys) = splitShifts ov xs @ splitShifts ov ys"
  by (induction xs) simp_all

lemma active_splitShifts_covered:
  "activeAt t ov \<Longrightarrow> filter (activeAt t) (splitShifts ov ws) = []"
  by (induction ws) (auto simp: activeAt_def)

lemma users_splitShifts_uncovered:
  "start_at ov \<le> end_at ov \<Longrightarrow> \<not> activeAt t ov \<Longrightarrow>
   map user (filter (activeAt t) (splitShifts ov ws)) = map user (filter (activeAt t) ws)"
  by (induction ws) (auto simp: activeAt_def)

lemma splitShifts_one_active_sub:
  "x \<in> set (splitShifts ov [s]) \<Longrightarrow> activeAt t x \<Longrightarrow> activeAt t s \<and> user x = user s"
  by (cases "start_at ov < end_at s \<and> end_at ov > start_at s")
     (auto simp: activeAt_def split: if_splits)

lemma splitShifts_one_active_sup:
  assumes "activeAt t s" and "\<not> activeAt t ov"
  shows "\<exists>x \<in> set (splitShifts ov [s]). activeAt t x \<and> user x = user s"
proof (cases "start_at ov < end_at s \<and> end_at ov > start_at s")
  case False
  then have "splitShifts ov [s] = [s]" by auto
  with assms(1) show ?thesis by simp
next
  case True
  show ?thesis
  proof (cases "t < start_at ov")
    case before: True
    let ?b = "\<lparr>user = user s, start_at = start_at s, end_at = start_at ov\<rparr>"
    have "start_at s < start_at ov" using assms(1) before by (simp add: activeAt_def)
    then have "?b \<in> set (splitShifts ov [s])" using True by simp
    moreover have "activeAt t ?b \<and> user ?b = user s"
      using assms(1) before by (simp add: activeAt_def)
    ultimately show ?thesis by blast
  next
    case notbefore: False
    let ?a = "\<lparr>user = user s, start_at = end_at ov, end_at = end_at s\<rparr>"
    have after: "end_at ov \<le> t" using assms(2) notbefore by (simp add: activeAt_def)
    then have "end_at ov < end_at s" using assms(1) by (simp add: activeAt_def)
    then have "?a \<in> set (splitShifts ov [s])" using True by simp
    moreover have "activeAt t ?a \<and> user ?a = user s"
      using assms(1) after by (simp add: activeAt_def)
    ultimately show ?thesis by blast
  qed
qed

lemma user_set_splitShifts_one:
  assumes "\<not> activeAt t ov"
  shows "user ` {x \<in> set (splitShifts ov [s]). activeAt t x}
       = user ` {x \<in> set [s]. activeAt t x}"
proof (rule set_eqI, rule iffI)
  fix u assume "u \<in> user ` {x \<in> set (splitShifts ov [s]). activeAt t x}"
  then obtain x where x: "x \<in> set (splitShifts ov [s])" "activeAt t x" "u = user x"
    by (auto simp del: splitShifts.simps)
  from splitShifts_one_active_sub [OF x(1,2)] x(3)
  show "u \<in> user ` {x \<in> set [s]. activeAt t x}" by simp
next
  fix u assume "u \<in> user ` {x \<in> set [s]. activeAt t x}"
  then have s: "activeAt t s" "u = user s" by auto
  from splitShifts_one_active_sup [OF s(1) assms]
  obtain x where x: "x \<in> set (splitShifts ov [s])" "activeAt t x" "user x = user s"
    by blast
  have "x \<in> {x \<in> set (splitShifts ov [s]). activeAt t x}"
    using x(1,2) by (simp del: splitShifts.simps)
  then have "user x \<in> user ` {x \<in> set (splitShifts ov [s]). activeAt t x}"
    by (rule imageI)
  then show "u \<in> user ` {x \<in> set (splitShifts ov [s]). activeAt t x}"
    by (simp only: s(2) x(3))
qed

lemma user_set_splitShifts_uncovered:
  assumes "\<not> activeAt t ov"
  shows "user ` {x \<in> set (splitShifts ov ws). activeAt t x}
       = user ` {x \<in> set ws. activeAt t x}"
proof (induction ws)
  case Nil
  then show ?case by simp
next
  case (Cons s ws)
  have "splitShifts ov (s # ws) = splitShifts ov [s] @ splitShifts ov ws"
    using splitShifts_append [of ov "[s]" ws] by simp
  then have "user ` {x \<in> set (splitShifts ov (s # ws)). activeAt t x}
      = user ` {x \<in> set (splitShifts ov [s]). activeAt t x}
        \<union> user ` {x \<in> set (splitShifts ov ws). activeAt t x}"
    by (simp only: set_append) (auto simp del: splitShifts.simps)
  also have "\<dots> = user ` {x \<in> set [s]. activeAt t x} \<union> user ` {x \<in> set ws. activeAt t x}"
    by (simp only: user_set_splitShifts_one [OF assms] Cons.IH)
  also have "\<dots> = user ` {x \<in> set (s # ws). activeAt t x}"
    by auto
  finally show ?case .
qed

lemma user_set_applyOverride_uncovered:
  assumes "\<not> activeAt t ov"
  shows "set (assignedAt (applyOverride ws ov) t) = set (assignedAt ws t)"
proof -
  have "set (assignedAt (applyOverride ws ov) t)
      = user ` {x \<in> set (splitShifts ov ws) \<union> {ov}. activeAt t x}"
    by (auto simp: assignedAt_def applyOverride_def)
  also have "{x \<in> set (splitShifts ov ws) \<union> {ov}. activeAt t x}
      = {x \<in> set (splitShifts ov ws). activeAt t x}"
    using assms by auto
  also have "user ` {x \<in> set (splitShifts ov ws). activeAt t x} = user ` {x \<in> set ws. activeAt t x}"
    by (rule user_set_splitShifts_uncovered [OF assms])
  also have "\<dots> = set (assignedAt ws t)"
    by (auto simp: assignedAt_def)
  finally show ?thesis .
qed

lemma user_set_overrideLoop_uncovered:
  "\<forall>ov \<in> set ovs. \<not> activeAt t ov \<Longrightarrow>
   set (assignedAt (overrideLoop ws ovs) t) = set (assignedAt ws t)"
  by (induction ovs arbitrary: ws) (simp_all add: user_set_applyOverride_uncovered)

lemma active_splitShifts_keep:
  "\<forall>s \<in> set ws. activeAt t s \<longrightarrow> \<not> overlaps ov s \<Longrightarrow>
   filter (activeAt t) (splitShifts ov ws) = filter (activeAt t) ws"
  by (induction ws) (auto simp: activeAt_def overlaps_def)

lemma assignedAt_applyOverride:
  assumes "start_at ov \<le> end_at ov"
  shows "mset (assignedAt (applyOverride ws ov) t)
           = (if activeAt t ov then {#user ov#} else mset (assignedAt ws t))"
proof -
  have "mset (map user (sort_key start_at (filter (activeAt t) (splitShifts ov ws @ [ov]))))
      = mset (map user (filter (activeAt t) (splitShifts ov ws @ [ov])))"
    by simp
  then have "mset (assignedAt (applyOverride ws ov) t)
      = mset (map user (filter (activeAt t) (splitShifts ov ws)))
        + mset (map user (filter (activeAt t) [ov]))"
    by (simp add: assignedAt_def applyOverride_def filter_sort)
  moreover have "mset (map user (filter (activeAt t) (splitShifts ov ws))) = {#}"
    if "activeAt t ov"
    by (simp only: active_splitShifts_covered [OF that] list.map mset.simps)
  moreover have "mset (map user (filter (activeAt t) (splitShifts ov ws)))
      = mset (map user (filter (activeAt t) ws))" if "\<not> activeAt t ov"
    by (rule arg_cong [where f = mset, OF users_splitShifts_uncovered [OF assms that]])
  ultimately show ?thesis
    by (cases "activeAt t ov") (simp_all add: assignedAt_def)
qed

lemma assignedAt_overrideLoop_uncovered:
  "\<forall>ov \<in> set ovs. start_at ov \<le> end_at ov \<and> \<not> activeAt t ov \<Longrightarrow>
   mset (assignedAt (overrideLoop ws ovs) t) = mset (assignedAt ws t)"
  by (induction ovs arbitrary: ws) (simp_all add: assignedAt_applyOverride)

lemma splitShifts_concat:
  "splitShifts ov ws =
     concat (map (\<lambda>shift.
        if \<not> overlaps ov shift then [shift]
        else (if start_at shift < start_at ov
              then [\<lparr>user = user shift, start_at = start_at shift, end_at = start_at ov\<rparr>]
              else [])
           @ (if end_at shift > end_at ov
              then [\<lparr>user = user shift, start_at = end_at ov, end_at = end_at shift\<rparr>]
              else [])) ws)"
  by (induction ws) (simp_all add: overlaps_def)

subsection \<open>Override precedence\<close>

lemma overlaps_sym: "overlaps a b = overlaps b a"
  by (auto simp: overlaps_def)

lemma active_both_overlaps: "activeAt t a \<Longrightarrow> activeAt t b \<Longrightarrow> overlaps a b"
  by (auto simp: activeAt_def overlaps_def)

lemma applyOverride_installs:
  "activeAt t ov \<Longrightarrow> filter (activeAt t) (applyOverride ws ov) = [ov]"
  by (simp add: applyOverride_def filter_sort active_splitShifts_covered)

lemma applyOverride_keeps:
  assumes "filter (activeAt t) ws = [ov]" and "\<not> overlaps ov' ov"
  shows "filter (activeAt t) (applyOverride ws ov') = [ov]"
proof -
  have "ov \<in> set (filter (activeAt t) ws)" using assms(1) by simp
  then have act: "activeAt t ov" by simp
  have "\<forall>s \<in> set ws. activeAt t s \<longrightarrow> s = ov"
  proof (intro ballI impI)
    fix s assume "s \<in> set ws" "activeAt t s"
    then have "s \<in> set (filter (activeAt t) ws)" by simp
    then show "s = ov" using assms(1) by simp
  qed
  then have "\<forall>s \<in> set ws. activeAt t s \<longrightarrow> \<not> overlaps ov' s"
    using assms(2) by blast
  then have "filter (activeAt t) (splitShifts ov' ws) = filter (activeAt t) ws"
    by (rule active_splitShifts_keep)
  then have "filter (activeAt t) (splitShifts ov' ws) = [ov]"
    using assms(1) by simp
  moreover have "\<not> activeAt t ov'"
    using act assms(2) active_both_overlaps by blast
  ultimately show ?thesis
    by (simp add: applyOverride_def filter_sort)
qed

lemma overrideLoop_keeps:
  "filter (activeAt t) ws = [ov] \<Longrightarrow> \<forall>ov' \<in> set ovs. \<not> overlaps ov ov' \<Longrightarrow>
   filter (activeAt t) (overrideLoop ws ovs) = [ov]"
proof (induction ovs arbitrary: ws)
  case Nil
  then show ?case by simp
next
  case (Cons a ovs)
  then have "filter (activeAt t) (applyOverride ws a) = [ov]"
    by (simp add: applyOverride_keeps overlaps_sym [of a ov])
  with Cons show ?case by simp
qed

lemma overrideLoop_precedence:
  "nonOverlapping ovs \<Longrightarrow> ov \<in> set ovs \<Longrightarrow> activeAt t ov \<Longrightarrow>
   filter (activeAt t) (overrideLoop ws ovs) = [ov]"
proof (induction ovs arbitrary: ws)
  case Nil
  then show ?case by simp
next
  case (Cons a ovs)
  show ?case
  proof (cases "a = ov")
    case True
    with Cons.prems show ?thesis
      by (simp add: overrideLoop_keeps applyOverride_installs)
  next
    case False
    with Cons show ?thesis by simp
  qed
qed

lemma nonOverlapping_insort_key:
  "nonOverlapping (insort_key f a xs) = nonOverlapping (a # xs)"
  by (induction xs) (auto simp: set_insort_key overlaps_sym)

lemma nonOverlapping_sort_key:
  "nonOverlapping (sort_key f xs) = nonOverlapping xs"
  by (induction xs) (simp_all add: nonOverlapping_insort_key)

lemma nonOverlapping_distinct_pair:
  "nonOverlapping xs \<Longrightarrow> a \<in> set xs \<Longrightarrow> b \<in> set xs \<Longrightarrow> a \<noteq> b \<Longrightarrow> \<not> overlaps a b"
  by (induction xs) (auto simp: overlaps_sym)

lemma nonOverlapping_inj_on_start:
  assumes "nonOverlapping xs" and "\<forall>ov \<in> set xs. wellFormed ov"
  shows "inj_on start_at (set xs)"
proof (rule inj_onI)
  fix a b assume ab: "a \<in> set xs" "b \<in> set xs" "start_at a = start_at b"
  show "a = b"
  proof (rule ccontr)
    assume "a \<noteq> b"
    then have "\<not> overlaps a b" using assms(1) ab nonOverlapping_distinct_pair by blast
    moreover have "overlaps a b" using assms(2) ab by (auto simp: overlaps_def wellFormed_def)
    ultimately show False by simp
  qed
qed

text \<open>
  Claim C3. Let \<open>t\<close> be an instant that no override covers. Then the schedule returned by
  \<open>applyOverrides\<close> assigns at \<open>t\<close> the users that the base schedule assigns at \<open>t\<close>; when
  every override has \<open>start_at \<le> end_at\<close>, it assigns them with the same multiplicities.
  The loop over the shifts replaces each shift on its own: a shift without overlap passes
  through unchanged; a shift with overlap leaves the remnant before the override when it
  starts before the override, and the remnant after the override when it ends after it,
  both with the user of the shift.
\<close>

theorem applyOverrides_preserves_uncovered:
  assumes "\<forall>ov \<in> set overrides. \<not> activeAt t ov"
  shows "set (assignedAt (applyOverrides base overrides) t) = set (assignedAt base t)
    \<and> ((\<forall>ov \<in> set overrides. start_at ov \<le> end_at ov) \<longrightarrow>
          mset (assignedAt (applyOverrides base overrides) t) = mset (assignedAt base t))
    \<and> splitShifts override workingSchedule =
        concat (map (\<lambda>shift.
          if \<not> (start_at override < end_at shift \<and> end_at override > start_at shift)
          then [shift]
          else (if start_at shift < start_at override
                then [\<lparr>user = user shift, start_at = start_at shift,
                        end_at = start_at override\<rparr>]
                else [])
             @ (if end_at shift > end_at override
                then [\<lparr>user = user shift, start_at = end_at override,
                        end_at = end_at shift\<rparr>]
                else [])) workingSchedule)"
proof -
  have "set (assignedAt (applyOverrides base overrides) t) = set (assignedAt base t)"
    using assms by (simp add: applyOverrides_def user_set_overrideLoop_uncovered)
  moreover have "mset (assignedAt (applyOverrides base overrides) t) = mset (assignedAt base t)"
    if "\<forall>ov \<in> set overrides. start_at ov \<le> end_at ov"
    using assms that by (simp add: applyOverrides_def assignedAt_overrideLoop_uncovered)
  ultimately show ?thesis
    using splitShifts_concat [of override workingSchedule, unfolded overlaps_def] by blast
qed

theorem applyOverrides_preserves_uncovered_witness:
  "mset (assignedAt
        (applyOverrides
           [\<lparr>user = Some ''A'', start_at = 0, end_at = 10\<rparr>,
            \<lparr>user = Some ''B'', start_at = 10, end_at = 20\<rparr>]
           [\<lparr>user = Some ''C'', start_at = 5, end_at = 15\<rparr>]) 2)
     = mset (assignedAt
        [\<lparr>user = Some ''A'', start_at = 0, end_at = 10\<rparr>,
         \<lparr>user = Some ''B'', start_at = 10, end_at = 20\<rparr>] 2)"
  using applyOverrides_preserves_uncovered
    [where overrides = "[\<lparr>user = Some ''C'', start_at = 5, end_at = 15\<rparr>]" and t = 2
       and base = "[\<lparr>user = Some ''A'', start_at = 0, end_at = 10\<rparr>,
                    \<lparr>user = Some ''B'', start_at = 10, end_at = 20\<rparr>]"]
  by (simp add: activeAt_def)

text \<open>
  Claim C2. Let the overrides be mutually non-overlapping, and let \<open>t\<close> lie in the
  half-open interval of one of them. Then exactly one shift of the schedule returned by
  \<open>applyOverrides\<close> is active at \<open>t\<close>: that override, so the user assigned at \<open>t\<close> is the
  override's user. A shift of positive length that the override covers (exactly or with
  room to spare) leaves no remnant.
\<close>

theorem override_precedence:
  assumes "nonOverlapping overrides" and "ov \<in> set overrides"
    and "start_at ov \<le> t" and "t < end_at ov"
  shows "filter (activeAt t) (applyOverrides base overrides) = [ov]
    \<and> assignedAt (applyOverrides base overrides) t = [user ov]
    \<and> (\<forall>shift. start_at ov \<le> start_at shift \<and> end_at shift \<le> end_at ov
           \<and> start_at shift < end_at shift \<longrightarrow> splitShifts ov [shift] = [])"
proof -
  have "filter (activeAt t) (applyOverrides base overrides) = [ov]"
    using assms
    by (simp add: applyOverrides_def overrideLoop_precedence nonOverlapping_sort_key
        activeAt_def)
  then show ?thesis by (auto simp: assignedAt_def)
qed

theorem override_precedence_witness:
  "assignedAt
        (applyOverrides
           [\<lparr>user = Some ''A'', start_at = 0, end_at = 10\<rparr>,
            \<lparr>user = Some ''B'', start_at = 10, end_at = 20\<rparr>,
            \<lparr>user = Some ''A'', start_at = 20, end_at = 30\<rparr>]
           [\<lparr>user = Some ''C'', start_at = 5, end_at = 20\<rparr>,
            \<lparr>user = Some ''D'', start_at = 25, end_at = 27\<rparr>]) 12
       = [Some ''C'']
   \<and> splitShifts \<lparr>user = Some ''C'', start_at = 5, end_at = 20\<rparr>
        [\<lparr>user = Some ''B'', start_at = 10, end_at = 20\<rparr>] = []"
  using override_precedence
    [where overrides = "[\<lparr>user = Some ''C'', start_at = 5, end_at = 20\<rparr>,
                         \<lparr>user = Some ''D'', start_at = 25, end_at = 27\<rparr>]"
       and ov = "\<lparr>user = Some ''C'', start_at = 5, end_at = 20\<rparr>" and t = 12
       and base = "[\<lparr>user = Some ''A'', start_at = 0, end_at = 10\<rparr>,
                    \<lparr>user = Some ''B'', start_at = 10, end_at = 20\<rparr>,
                    \<lparr>user = Some ''A'', start_at = 20, end_at = 30\<rparr>]"]
  by (simp add: overlaps_def)

text \<open>
  Claim C7. For well-formed overrides (\<open>start_at < end_at\<close>) that are mutually
  non-overlapping, \<open>applyOverrides\<close> returns the same schedule for every order in which
  the overrides are supplied.
\<close>

theorem applyOverrides_order_insensitive:
  assumes "nonOverlapping overrides" and "\<forall>ov \<in> set overrides. wellFormed ov"
    and "mset overrides' = mset overrides"
  shows "applyOverrides base overrides' = applyOverrides base overrides"
proof -
  have "sort_key start_at overrides = sort_key start_at overrides'"
    using assms by (intro sort_key_eq_sort_key nonOverlapping_inj_on_start) simp_all
  then show ?thesis by (simp add: applyOverrides_def)
qed

theorem applyOverrides_order_insensitive_witness:
  "applyOverrides
        [\<lparr>user = Some ''A'', start_at = 0, end_at = 10\<rparr>,
         \<lparr>user = Some ''B'', start_at = 10, end_at = 20\<rparr>]
        [\<lparr>user = Some ''D'', start_at = 12, end_at = 15\<rparr>,
         \<lparr>user = Some ''C'', start_at = 5, end_at = 8\<rparr>]
     = applyOverrides
        [\<lparr>user = Some ''A'', start_at = 0, end_at = 10\<rparr>,
         \<lparr>user = Some ''B'', start_at = 10, end_at = 20\<rparr>]
        [\<lparr>user = Some ''C'', start_at = 5, end_at = 8\<rparr>,
         \<lparr>user = Some ''D'', start_at = 12, end_at = 15\<rparr>]"
  using applyOverrides_order_insensitive
    [where overrides = "[\<lparr>user = Some ''C'', start_at = 5, end_at = 8\<rparr>,
                         \<lparr>user = Some ''D'', start_at = 12, end_at = 15\<rparr>]"
       and overrides' = "[\<lparr>user = Some ''D'', start_at = 12, end_at = 15\<rparr>,
                          \<lparr>user = Some ''C'', start_at = 5, end_at = 8\<rparr>]"
       and base = "[\<lparr>user = Some ''A'', start_at = 0, end_at = 10\<rparr>,
                    \<lparr>user = Some ''B'', start_at = 10, end_at = 20\<rparr>]"]
  by (simp add: overlaps_def wellFormed_def)

section \<open>Coverage, alignment and cyclic assignment of the base schedule\<close>

lemma generateBaseSchedule_Inr:
  assumes "generateBaseSchedule config from until = Some (Inr base)"
  shows "0 < interval_ms config"
    and "base = shiftsFrom (users config) (interval_ms config) until
             (handover_start_at config
                + (from - handover_start_at config) div interval_ms config * interval_ms config)
             (js_rem_opt
                (js_add (js_rem ((from - handover_start_at config) div interval_ms config)
                           (int (length (users config))))
                   (int (length (users config))))
                (int (length (users config))))"
  using assms by (auto simp: generateBaseSchedule_eq split: if_splits)

lemma first_start_le:
  assumes "0 < (i::int)"
  shows "a + (f - a) div i * i \<le> f" and "f < a + (f - a) div i * i + i"
proof -
  have "(f - a) div i * i + (f - a) mod i = f - a" by simp
  moreover have "0 \<le> (f - a) mod i" "(f - a) mod i < i" using assms by simp_all
  ultimately show "a + (f - a) div i * i \<le> f" and "f < a + (f - a) div i * i + i"
    by linarith+
qed

lemma base_coverage:
  assumes "generateBaseSchedule config from until = Some (Inr base)" and "from < until"
  shows "base \<noteq> []
    \<and> start_at (hd base) = handover_start_at config
          + (from - handover_start_at config) div interval_ms config * interval_ms config
    \<and> start_at (hd base) \<le> from \<and> from < end_at (hd base)
    \<and> until \<le> end_at (last base)
    \<and> (\<forall>s \<in> set base. \<exists>k. start_at s = handover_start_at config + k * interval_ms config
           \<and> end_at s = handover_start_at config + (k + 1) * interval_ms config)"
proof -
  let ?i = "interval_ms config"
  let ?a = "handover_start_at config"
  let ?s0 = "?a + (from - ?a) div ?i * ?i"
  note gb = generateBaseSchedule_Inr [OF assms(1)]
  have i: "0 < ?i" by (rule gb(1))
  have s0: "?s0 \<le> from" "from < ?s0 + ?i" using first_start_le [OF i] by blast+
  then have lt: "?s0 < until" using assms(2) by linarith
  have ne: "base \<noteq> []" by (subst gb(2)) (use lt i in \<open>simp add: shiftsFrom_Nil_iff\<close>)
  have hd: "hd base = \<lparr>user = js_index (users config) (js_rem_opt
                (js_add (js_rem ((from - ?a) div ?i)
                           (int (length (users config))))
                   (int (length (users config))))
                (int (length (users config)))), start_at = ?s0, end_at = ?s0 + ?i\<rparr>"
    by (subst gb(2)) (rule shiftsFrom_hd [OF lt i])
  have last: "until \<le> end_at (last base)"
    by (subst gb(2)) (rule shiftsFrom_last [OF lt i])
  have al: "\<exists>k. start_at s = ?a + k * ?i \<and> end_at s = ?a + (k + 1) * ?i" if "s \<in> set base" for s
  proof -
    from that gb(2) obtain k :: nat where k: "end_at s = start_at s + ?i" "start_at s = ?s0 + int k * ?i"
      using shiftsFrom_member by metis
    show ?thesis
      by (rule exI [of _ "(from - ?a) div ?i + int k"]) (simp add: k algebra_simps)
  qed
  show ?thesis using ne hd last al s0 by simp
qed

lemma base_user:
  assumes "generateBaseSchedule config from until = Some (Inr base)"
    and "users config \<noteq> []" and "s \<in> set base"
  shows "\<exists>i. start_at s = handover_start_at config + i * interval_ms config
    \<and> js_rem_opt (js_add (js_rem i (int (length (users config)))) (int (length (users config))))
          (int (length (users config))) = Some (i mod int (length (users config)))
    \<and> user s = Some (users config ! nat (i mod int (length (users config))))"
proof -
  let ?i = "interval_ms config"
  let ?a = "handover_start_at config"
  let ?n = "int (length (users config))"
  let ?k0 = "(from - ?a) div ?i"
  note gb = generateBaseSchedule_Inr [OF assms(1)]
  have i: "0 < ?i" by (rule gb(1))
  have n: "0 < ?n" using assms(2) by simp
  have mem: "s \<in> set (shiftsFrom (users config) ?i until (?a + ?k0 * ?i) (Some (?k0 mod ?n)))"
    using assms(3) gb(2) by (simp add: user_index_normalised [OF n])
  obtain k :: nat where k: "start_at s = ?a + ?k0 * ?i + int k * ?i"
    using shiftsFrom_member [OF mem] by blast
  have "(start_at s - (?a + ?k0 * ?i)) div ?i = int k" using k i by simp
  moreover have "user s = Some (users config ! nat ((?k0 mod ?n + (start_at s - (?a + ?k0 * ?i)) div ?i) mod ?n))"
    using shiftsFrom_user [OF _ _ mem] n by simp
  ultimately have "user s = Some (users config ! nat ((?k0 + int k) mod ?n))"
    by (simp add: mod_add_left_eq)
  moreover have "start_at s = ?a + (?k0 + int k) * ?i" using k by (simp add: algebra_simps)
  ultimately show ?thesis using user_index_normalised [OF n] by blast
qed

lemmas example_eval =
  generateBaseSchedule_eq interval_ms_def shiftsFrom.simps js_rem_def js_add_def
  js_rem_opt_def js_index_def exampleConfig_def exampleOverride_def

lemma newDate_Some:
  "- 8640000000000000 \<le> ms \<Longrightarrow> ms \<le> 8640000000000000 \<Longrightarrow> newDate ms = Some ms"
  by (simp add: newDate_def)

lemma base_valid_dates:
  assumes "generateBaseSchedule config from until = Some (Inr base)"
    and "exactRange config from until"
  shows "validDates base"
proof -
  let ?i = "interval_ms config"
  let ?a = "handover_start_at config"
  let ?s0 = "?a + (from - ?a) div ?i * ?i"
  note gb = generateBaseSchedule_Inr [OF assms(1)]
  have i: "0 < ?i" by (rule gb(1))
  have s0: "from < ?s0 + ?i" using first_start_le [OF i] by blast
  have lo: "- 8640000000000000 \<le> from - ?i" and hi: "until + ?i \<le> 8640000000000000"
    using assms(2) by (simp_all add: exactRange_def)
  have "newDate (start_at s) = Some (start_at s) \<and> newDate (end_at s) = Some (end_at s)"
    if "s \<in> set base" for s
  proof -
    from that gb(2) obtain k :: nat where
      k: "start_at s < until" "end_at s = start_at s + ?i" "start_at s = ?s0 + int k * ?i"
      using shiftsFrom_member by metis
    have "0 \<le> int k * ?i" using i by simp
    then have "?s0 \<le> start_at s" using k(3) by linarith
    then have "- 8640000000000000 \<le> start_at s" "start_at s \<le> 8640000000000000"
      "- 8640000000000000 \<le> end_at s" "end_at s \<le> 8640000000000000"
      using k(1,2) s0 lo hi i by linarith+
    then show ?thesis by (simp add: newDate_Some)
  qed
  then show ?thesis by (simp add: validDates_def list_all_iff)
qed

lemma validStored_iff:
  assumes "validDates schedule"
  shows "validStored schedule = validSchedule schedule"
proof -
  have v: "newDate (start_at s) = Some (start_at s)" "newDate (end_at s) = Some (end_at s)"
    if "s \<in> set schedule" for s
    using assms that by (simp_all add: validDates_def list_all_iff)
  have "sorted_wrt (\<lambda>a b. dateLe (newDate (start_at a)) (newDate (start_at b))) schedule
      = sorted_wrt (\<lambda>a b. start_at a \<le> start_at b) schedule"
    by (rule iffI; erule sorted_wrt_mono_rel [rotated]) (simp_all add: v dateLe_def)
  moreover have "successively (\<lambda>a b. dateEq (newDate (end_at a)) (newDate (start_at b))) schedule
      = successively (\<lambda>a b. end_at a = start_at b) schedule"
    by (rule iffI; erule successively_mono) (simp_all add: v dateEq_def)
  ultimately show ?thesis by (simp add: validStored_def validSchedule_def sorted_map)
qed

text \<open>
  Claim C5, as amended. For a configuration that \<open>generateBaseSchedule\<close> accepts (a positive
  whole number of days) and a window with \<open>from < until\<close> in the exact range, the base
  schedule is not empty; its first shift starts at
  \<open>anchor + floor ((from - anchor) / interval) * interval\<close>, which is at most \<open>from\<close>, and
  contains \<open>from\<close>; its last shift ends at or after \<open>until\<close>; every shift runs from
  \<open>anchor + k * interval\<close> to \<open>anchor + (k + 1) * interval\<close> for an integer \<open>k\<close>; and every
  boundary is stored as a valid Date, so that the two comparisons hold of the Dates too.
\<close>

theorem base_schedule_coverage:
  assumes "generateBaseSchedule config fromDate untilDate = Some (Inr base)" and "fromDate < untilDate"
    and "exactRange config fromDate untilDate"
  shows "base \<noteq> []
    \<and> start_at (hd base) = handover_start_at config
          + (fromDate - handover_start_at config) div interval_ms config * interval_ms config
    \<and> start_at (hd base) \<le> fromDate \<and> fromDate < end_at (hd base)
    \<and> untilDate \<le> end_at (last base)
    \<and> (\<forall>s \<in> set base. \<exists>k. start_at s = handover_start_at config + k * interval_ms config
           \<and> end_at s = handover_start_at config + (k + 1) * interval_ms config)
    \<and> validDates base
    \<and> dateLe (newDate (start_at (hd base))) (newDate fromDate)
    \<and> dateLe (newDate untilDate) (newDate (end_at (last base)))"
proof -
  note cov = base_coverage [OF assms(1,2)]
  have vd: "validDates base" using assms(1,3) by (rule base_valid_dates)
  have ne: "base \<noteq> []" using cov by blast
  then have "hd base \<in> set base" "last base \<in> set base" by simp_all
  then have b: "newDate (start_at (hd base)) = Some (start_at (hd base))"
    "newDate (end_at (last base)) = Some (end_at (last base))"
    using vd by (simp_all add: validDates_def list_all_iff)
  have i: "0 < interval_ms config" by (rule generateBaseSchedule_Inr(1) [OF assms(1)])
  have "- 8640000000000000 \<le> fromDate" "fromDate \<le> 8640000000000000"
    "- 8640000000000000 \<le> untilDate" "untilDate \<le> 8640000000000000"
    using assms(2,3) i unfolding exactRange_def by linarith+
  then have "newDate fromDate = Some fromDate" "newDate untilDate = Some untilDate"
    by (simp_all add: newDate_Some)
  then have "dateLe (newDate (start_at (hd base))) (newDate fromDate)"
    "dateLe (newDate untilDate) (newDate (end_at (last base)))"
    using b cov by (simp_all add: dateLe_def)
  then show ?thesis using cov vd by blast
qed

theorem base_schedule_coverage_witness:
  "generateBaseSchedule exampleConfig 1735646400000 1735776000000
     = Some (Inr [\<lparr>user = Some ''B'', start_at = 1735603200000, end_at = 1735689600000\<rparr>,
                  \<lparr>user = Some ''A'', start_at = 1735689600000, end_at = 1735776000000\<rparr>])
   \<and> exactRange exampleConfig 1735646400000 1735776000000
   \<and> (1735603200000 :: int) \<le> 1735646400000
   \<and> (1735776000000 :: int) \<le> 1735776000000
   \<and> newDate 1735603200000 = Some 1735603200000
   \<and> newDate 1735776000000 = Some 1735776000000"
  using base_schedule_coverage
    [where config = exampleConfig and fromDate = 1735646400000 and untilDate = 1735776000000
       and base = "[\<lparr>user = Some ''B'', start_at = 1735603200000, end_at = 1735689600000\<rparr>,
                    \<lparr>user = Some ''A'', start_at = 1735689600000, end_at = 1735776000000\<rparr>]"]
  by (simp add: example_eval exactRange_def newDate_def)

text \<open>
  Claim C5 as stated fails: with an interval of 100000000 days from 2025-01-01 and the
  window of that day, the one base shift ends 8641735689600000 ms after the epoch, past
  the last valid Date; the program stores an Invalid Date as its \<open>end_at\<close>, and no
  comparison with it holds, so the last end is not at or after \<open>until\<close>.
\<close>

theorem base_schedule_last_end_invalid:
  "generateBaseSchedule
     \<lparr>users = [''A'', ''B''], handover_start_at = 1735689600000,
      handover_interval_days = 100000000\<rparr> 1735689600000 1735776000000
     = Some (Inr [\<lparr>user = Some ''A'', start_at = 1735689600000, end_at = 8641735689600000\<rparr>])
   \<and> newDate 8641735689600000 = None
   \<and> \<not> dateLe (newDate 1735776000000) (newDate 8641735689600000)"
  by (simp add: example_eval newDate_def dateLe_def)

text \<open>
  Claim C6. For a configuration with \<open>N > 0\<close> users that \<open>generateBaseSchedule\<close> accepts,
  a base shift that starts \<open>i\<close> intervals from the anchor (\<open>i\<close> may be negative) is
  assigned \<open>users[((i % N) + N) % N]\<close>, which is the user at index \<open>i mod N\<close>; the shift one
  interval before the anchor is assigned the last user.
\<close>

theorem base_schedule_cyclic:
  assumes "generateBaseSchedule config fromDate untilDate = Some (Inr base)"
    and "users config \<noteq> []" and "s \<in> set base"
    and "start_at s = handover_start_at config + i * interval_ms config"
  shows "user s = js_index (users config)
            (js_rem_opt (js_add (js_rem i (int (length (users config))))
               (int (length (users config)))) (int (length (users config))))
    \<and> user s = Some (users config ! nat (i mod int (length (users config))))
    \<and> (i = - 1 \<longrightarrow> user s = Some (last (users config)))"
proof -
  let ?n = "int (length (users config))"
  obtain j where j: "start_at s = handover_start_at config + j * interval_ms config"
    "js_rem_opt (js_add (js_rem j ?n) ?n) ?n = Some (j mod ?n)"
    "user s = Some (users config ! nat (j mod ?n))"
    using base_user [OF assms(1-3)] by blast
  have "0 < interval_ms config" using generateBaseSchedule_Inr(1) [OF assms(1)] .
  with j(1) assms(4) have ji: "j = i" by simp
  have n: "0 < ?n" using assms(2) by simp
  then have range: "0 \<le> i mod ?n" "i mod ?n < ?n" by simp_all
  have "(- 1) mod ?n = ?n - 1" using n by (simp add: zmod_minus1)
  then have "nat ((- 1) mod ?n) = length (users config) - 1" by simp
  then have "users config ! nat ((- 1) mod ?n) = last (users config)"
    using assms(2) by (simp add: last_conv_nth)
  then show ?thesis using j ji range by (auto simp: js_index_def)
qed

theorem base_schedule_cyclic_witness:
  "generateBaseSchedule exampleConfig 1735646400000 1735776000000
     = Some (Inr [\<lparr>user = Some ''B'', start_at = 1735603200000, end_at = 1735689600000\<rparr>,
                  \<lparr>user = Some ''A'', start_at = 1735689600000, end_at = 1735776000000\<rparr>])
   \<and> (1735603200000 :: int) = handover_start_at exampleConfig + (- 1) * interval_ms exampleConfig
   \<and> Some ''B'' = Some (last (users exampleConfig))"
  using base_schedule_cyclic
    [where config = exampleConfig and fromDate = 1735646400000 and untilDate = 1735776000000
       and base = "[\<lparr>user = Some ''B'', start_at = 1735603200000, end_at = 1735689600000\<rparr>,
                    \<lparr>user = Some ''A'', start_at = 1735689600000, end_at = 1735776000000\<rparr>]"
       and s = "\<lparr>user = Some ''B'', start_at = 1735603200000, end_at = 1735689600000\<rparr>"
       and i = "- 1"]
  by (simp add: example_eval)

section \<open>Validity of schedules\<close>

lemma ordered_Nil: "ordered []"
  by (simp add: ordered_def)

lemma ordered_Cons:
  "ordered (x # xs) \<longleftrightarrow>
     start_at x < end_at x \<and> (\<forall>y \<in> set xs. end_at x \<le> start_at y) \<and> ordered xs"
  by (auto simp: ordered_def)

lemma ordered_append:
  "ordered (xs @ ys) \<longleftrightarrow>
     ordered xs \<and> ordered ys \<and> (\<forall>x \<in> set xs. \<forall>y \<in> set ys. end_at x \<le> start_at y)"
  by (auto simp: ordered_def sorted_wrt_append)

lemma splitShifts_sub:
  "x \<in> set (splitShifts ov ws) \<Longrightarrow>
   \<exists>s \<in> set ws. start_at s \<le> start_at x \<and> end_at x \<le> end_at s \<and> user x = user s"
  by (induction ws) (auto split: if_splits)

lemma splitShifts_disjoint:
  "x \<in> set (splitShifts ov ws) \<Longrightarrow> end_at x \<le> start_at ov \<or> end_at ov \<le> start_at x"
  by (induction ws) (auto split: if_splits)

lemma splitShifts_positive:
  "\<forall>s \<in> set ws. start_at s < end_at s \<Longrightarrow> x \<in> set (splitShifts ov ws) \<Longrightarrow>
   start_at x < end_at x"
  by (induction ws) (auto split: if_splits)

lemma splitShifts_ordered:
  assumes "start_at ov \<le> end_at ov" and "ordered ws"
  shows "ordered (splitShifts ov ws)"
  using assms(2)
proof (induction ws)
  case Nil
  then show ?case by (simp add: ordered_Nil)
next
  case (Cons s ws)
  then have s: "start_at s < end_at s" and after: "\<forall>y \<in> set ws. end_at s \<le> start_at y"
    and rest: "ordered (splitShifts ov ws)"
    by (simp_all add: ordered_Cons)
  have later: "end_at s \<le> start_at y" if "y \<in> set (splitShifts ov ws)" for y
    using splitShifts_sub [OF that] after by force
  have "splitShifts ov (s # ws) = splitShifts ov [s] @ splitShifts ov ws"
    by simp
  moreover have "ordered (splitShifts ov [s])"
    using s assms(1) by (auto simp: ordered_Cons ordered_Nil)
  moreover have "end_at x \<le> end_at s" if "x \<in> set (splitShifts ov [s])" for x
    using splitShifts_sub [OF that] by simp
  ultimately show ?case
    using rest later by (simp only: ordered_append) force
qed

lemma ordered_pairwise:
  "ordered xs \<Longrightarrow> a \<in> set xs \<Longrightarrow> b \<in> set xs \<Longrightarrow>
   a = b \<or> end_at a \<le> start_at b \<or> end_at b \<le> start_at a"
  by (induction xs) (auto simp: ordered_Cons)

lemma ordered_distinct: "ordered xs \<Longrightarrow> distinct xs"
  by (induction xs) (auto simp: ordered_Cons)

lemma ordered_positive: "ordered xs \<Longrightarrow> x \<in> set xs \<Longrightarrow> start_at x < end_at x"
  by (simp add: ordered_def)

lemma sorted_disjoint_ordered:
  "sorted (map start_at ys) \<Longrightarrow> distinct ys \<Longrightarrow> \<forall>a \<in> set ys. start_at a < end_at a \<Longrightarrow>
   \<forall>a \<in> set ys. \<forall>b \<in> set ys. a = b \<or> end_at a \<le> start_at b \<or> end_at b \<le> start_at a \<Longrightarrow>
   ordered ys"
proof (induction ys)
  case Nil
  then show ?case by (simp add: ordered_Nil)
next
  case (Cons y ys)
  have "end_at y \<le> start_at b" if b: "b \<in> set ys" for b
  proof -
    have "y \<noteq> b" using Cons.prems(2) b by auto
    then have "end_at y \<le> start_at b \<or> end_at b \<le> start_at y"
      using Cons.prems(4) b by auto
    moreover have "start_at y \<le> start_at b" using Cons.prems(1) b by simp
    moreover have "start_at b < end_at b" using Cons.prems(3) b by simp
    ultimately show ?thesis by linarith
  qed
  moreover have "ordered ys" using Cons by simp
  ultimately show ?case using Cons.prems(3) by (simp add: ordered_Cons)
qed

lemma applyOverride_ordered:
  assumes "ordered ws" and "wellFormed ov"
  shows "ordered (applyOverride ws ov)"
proof -
  let ?X = "splitShifts ov ws"
  have ov: "start_at ov < end_at ov" using assms(2) by (simp add: wellFormed_def)
  have X: "ordered ?X" using assms(1) ov by (simp add: splitShifts_ordered)
  have notin: "ov \<notin> set ?X" using splitShifts_disjoint [of ov ov ws] ov by auto
  show ?thesis unfolding applyOverride_def
  proof (rule sorted_disjoint_ordered)
    show "sorted (map start_at (sort_key start_at (?X @ [ov])))" by (rule sorted_sort_key)
    show "distinct (sort_key start_at (?X @ [ov]))"
      using ordered_distinct [OF X] notin by simp
    show "\<forall>a \<in> set (sort_key start_at (?X @ [ov])). start_at a < end_at a"
      using ordered_positive [OF X] ov by auto
    show "\<forall>a \<in> set (sort_key start_at (?X @ [ov])). \<forall>b \<in> set (sort_key start_at (?X @ [ov])).
        a = b \<or> end_at a \<le> start_at b \<or> end_at b \<le> start_at a"
      using ordered_pairwise [OF X] splitShifts_disjoint [of _ ov ws] by auto
  qed
qed

lemma overrideLoop_ordered:
  "ordered ws \<Longrightarrow> \<forall>ov \<in> set ovs. wellFormed ov \<Longrightarrow> ordered (overrideLoop ws ovs)"
  by (induction ovs arbitrary: ws) (simp_all add: applyOverride_ordered)

lemma applyOverrides_ordered:
  "ordered base \<Longrightarrow> \<forall>ov \<in> set ovs. wellFormed ov \<Longrightarrow> ordered (applyOverrides base ovs)"
  by (simp add: applyOverrides_def overrideLoop_ordered)

lemma shiftsFrom_ordered: "ordered (shiftsFrom us ival until cur idx)"
proof (induction us ival until cur idx rule: shiftsFrom.induct)
  case (1 us ival until cur idx)
  show ?case
  proof (cases "cur < until \<and> 0 < ival")
    case True
    have "cur + ival \<le> start_at s"
      if mem: "s \<in> set (shiftsFrom us ival until (cur + ival) (js_rem_opt (js_add idx 1) (int (length us))))" for s
    proof -
      obtain k :: nat where "start_at s = cur + ival + int k * ival"
        using shiftsFrom_member [OF mem] by blast
      moreover have "0 \<le> int k * ival" using True by simp
      ultimately show ?thesis by linarith
    qed
    with True "1.IH" show ?thesis
      by (auto simp: shiftsFrom.simps [of us ival until cur idx] ordered_Cons)
  next
    case False
    then have "shiftsFrom us ival until cur idx = []" by (simp add: shiftsFrom_Nil_iff)
    then show ?thesis by (simp add: ordered_Nil)
  qed
qed

lemma gapless_covers:
  "successively (\<lambda>a b. end_at a = start_at b) xs \<Longrightarrow> xs \<noteq> [] \<Longrightarrow>
   start_at (hd xs) \<le> t \<Longrightarrow> t < end_at (last xs) \<Longrightarrow> \<exists>s \<in> set xs. activeAt t s"
proof (induction xs)
  case Nil
  then show ?case by simp
next
  case (Cons x xs)
  show ?case
  proof (cases "t < end_at x")
    case True
    with Cons.prems show ?thesis by (auto simp: activeAt_def)
  next
    case False
    with Cons.prems have ne: "xs \<noteq> []" by auto
    with Cons.prems have "end_at x = start_at (hd xs)" "successively (\<lambda>a b. end_at a = start_at b) xs"
      by (auto simp: successively_Cons)
    with Cons.IH ne False Cons.prems show ?thesis by auto
  qed
qed

lemma overrideLoop_covers:
  "\<forall>ov \<in> set ovs. start_at ov \<le> end_at ov \<Longrightarrow> assignedAt ws t \<noteq> [] \<Longrightarrow>
   assignedAt (overrideLoop ws ovs) t \<noteq> []"
proof (induction ovs arbitrary: ws)
  case Nil
  then show ?case by simp
next
  case (Cons ov ovs)
  have "mset (assignedAt (applyOverride ws ov) t) \<noteq> {#}"
    using Cons.prems by (simp add: assignedAt_applyOverride)
  then have "assignedAt (applyOverride ws ov) t \<noteq> []" by auto
  with Cons show ?case by simp
qed

lemma ordered_active_le1: "ordered ys \<Longrightarrow> length (filter (activeAt t) ys) \<le> 1"
proof (induction ys)
  case Nil
  then show ?case by simp
next
  case (Cons y ys)
  show ?case
  proof (cases "activeAt t y")
    case True
    then have "\<forall>b \<in> set ys. \<not> activeAt t b"
      using Cons.prems by (auto simp: ordered_Cons activeAt_def)
    then have "filter (activeAt t) ys = []" by (simp add: filter_empty_conv)
    with True show ?thesis by simp
  next
    case False
    with Cons show ?thesis by (simp add: ordered_Cons)
  qed
qed

lemma withinRange_gapless:
  "ordered ys \<Longrightarrow> \<forall>t. lo \<le> t \<and> t < hi \<longrightarrow> (\<exists>s \<in> set ys. activeAt t s) \<Longrightarrow>
   successively (\<lambda>a b. end_at a = start_at b) (withinRange lo hi ys)"
proof (induction ys arbitrary: lo)
  case Nil
  then show ?case by (simp add: withinRange_def)
next
  case (Cons y ys)
  have y: "start_at y < end_at y" and after: "\<forall>b \<in> set ys. end_at y \<le> start_at b"
    and ord: "ordered ys"
    using Cons.prems(1) by (simp_all add: ordered_Cons)
  show ?case
  proof (cases "start_at y < hi \<and> lo < end_at y")
    case False
    have "\<forall>t. lo \<le> t \<and> t < hi \<longrightarrow> (\<exists>s \<in> set ys. activeAt t s)"
    proof (intro allI impI)
      fix t assume t: "lo \<le> t \<and> t < hi"
      then have "\<not> activeAt t y" using False by (auto simp: activeAt_def)
      then show "\<exists>s \<in> set ys. activeAt t s" using Cons.prems(2) t by auto
    qed
    then have "successively (\<lambda>a b. end_at a = start_at b) (withinRange lo hi ys)"
      using Cons.IH ord by blast
    moreover have "withinRange lo hi (y # ys) = withinRange lo hi ys"
      using False by (auto simp: withinRange_def)
    ultimately show ?thesis by simp
  next
    case True
    let ?lo = "max lo (end_at y)"
    have same: "withinRange ?lo hi ys = withinRange lo hi ys"
      unfolding withinRange_def
    proof (rule filter_cong [OF refl])
      fix b assume b: "b \<in> set ys"
      then have "end_at y \<le> start_at b" "start_at b < end_at b"
        using after ordered_positive [OF ord] by auto
      then show "(start_at b < hi \<and> ?lo < end_at b) = (start_at b < hi \<and> lo < end_at b)"
        by auto
    qed
    have cov: "\<forall>t. ?lo \<le> t \<and> t < hi \<longrightarrow> (\<exists>s \<in> set ys. activeAt t s)"
    proof (intro allI impI)
      fix t assume t: "?lo \<le> t \<and> t < hi"
      then have "\<not> activeAt t y" by (auto simp: activeAt_def)
      moreover have "lo \<le> t \<and> t < hi" using t by auto
      ultimately show "\<exists>s \<in> set ys. activeAt t s" using Cons.prems(2) by auto
    qed
    have rest: "successively (\<lambda>a b. end_at a = start_at b) (withinRange lo hi ys)"
      using Cons.IH [OF ord cov] same by simp
    have link: "end_at y = start_at (hd (withinRange lo hi ys))" if ne: "withinRange lo hi ys \<noteq> []"
    proof (rule ccontr)
      let ?z = "hd (withinRange lo hi ys)"
      assume neq: "end_at y \<noteq> start_at ?z"
      have zin: "?z \<in> set (withinRange lo hi ys)" using ne by simp
      then have z: "?z \<in> set ys" "start_at ?z < hi" by (auto simp: withinRange_def)
      then have gap: "end_at y < start_at ?z" using after neq by force
      have "lo \<le> end_at y \<and> end_at y < hi" using True gap z by linarith
      then obtain s where s: "s \<in> set (y # ys)" "activeAt (end_at y) s"
        using Cons.prems(2) by blast
      then have sys: "s \<in> set ys" by (auto simp: activeAt_def)
      have sr: "s \<in> set (withinRange lo hi ys)"
        using sys s(2) True gap z by (auto simp: withinRange_def activeAt_def)
      have ordr: "ordered (withinRange lo hi ys)"
        using ord by (auto simp: ordered_def withinRange_def intro: sorted_wrt_filter)
      obtain r where r: "withinRange lo hi ys = ?z # r" using ne by (cases "withinRange lo hi ys") auto
      have "start_at ?z \<le> start_at s"
      proof (cases "s = ?z")
        case True
        then show ?thesis by simp
      next
        case False
        then have "s \<in> set r" using sr r by (metis set_ConsD)
        moreover have "ordered (?z # r)" using ordr r by simp
        ultimately have "end_at ?z \<le> start_at s" by (simp add: ordered_Cons)
        moreover have "start_at ?z < end_at ?z" using ordered_positive [OF ord z(1)] .
        ultimately show ?thesis by linarith
      qed
      then show False using s(2) gap by (simp add: activeAt_def)
    qed
    have "withinRange lo hi (y # ys) = y # withinRange lo hi ys"
      using True by (simp add: withinRange_def)
    then show ?thesis using rest link by (auto simp: successively_Cons)
  qed
qed

lemma ordered_sorted_start: "ordered ys \<Longrightarrow> sorted (map start_at ys)"
proof (induction ys)
  case Nil
  then show ?case by simp
next
  case (Cons y ys)
  have "start_at y \<le> start_at b" if "b \<in> set ys" for b
    using Cons.prems that by (force simp: ordered_Cons)
  with Cons show ?case by (simp add: ordered_Cons)
qed

lemma ordered_withinRange: "ordered ys \<Longrightarrow> ordered (withinRange lo hi ys)"
  by (auto simp: ordered_def withinRange_def intro: sorted_wrt_filter)

text \<open>
  Claim C1, as amended. For a configuration that \<open>generateBaseSchedule\<close> accepts (a positive
  whole number of days) and a window with \<open>from < until\<close> in the exact range, the base
  schedule is sorted by start and gapless, every boundary of it is stored as a valid Date,
  and it is sorted and gapless as stored. For well-formed overrides (\<open>start_at < end_at\<close>),
  mutually non-overlapping or not, the shifts of the schedule returned by
  \<open>applyOverrides\<close> that meet the generated range (from the start of the first base shift
  to the end of the last) are again sorted by start and gapless, and every instant of
  that range lies in exactly one shift.
\<close>

theorem schedule_validity:
  assumes "generateBaseSchedule config fromDate untilDate = Some (Inr base)" and "fromDate < untilDate"
    and "\<forall>ov \<in> set overrides. wellFormed ov"
    and "exactRange config fromDate untilDate"
  shows "validSchedule base \<and> validDates base \<and> validStored base
    \<and> validSchedule
        (withinRange (start_at (hd base)) (end_at (last base)) (applyOverrides base overrides))
    \<and> (\<forall>t. start_at (hd base) \<le> t \<and> t < end_at (last base) \<longrightarrow>
          length (filter (activeAt t) (applyOverrides base overrides)) = 1)"
proof -
  let ?R = "applyOverrides base overrides"
  let ?lo = "start_at (hd base)" and ?hi = "end_at (last base)"
  note gb = generateBaseSchedule_Inr [OF assms(1)]
  have ne: "base \<noteq> []" using base_coverage [OF assms(1,2)] by blast
  have gapless: "successively (\<lambda>a b. end_at a = start_at b) base"
    by (subst gb(2)) (rule shiftsFrom_gapless)
  have "sorted (map start_at base)"
    by (subst gb(2)) (rule shiftsFrom_sorted)
  then have valid: "validSchedule base"
    using gapless by (simp add: validSchedule_def)
  have dates: "validDates base" using assms(1,4) by (rule base_valid_dates)
  then have stored: "validStored base" using valid by (simp add: validStored_iff)
  have "ordered base" by (subst gb(2)) (rule shiftsFrom_ordered)
  then have ord: "ordered ?R" using assms(3) by (rule applyOverrides_ordered)
  have cov: "\<exists>s \<in> set ?R. activeAt t s" if t: "?lo \<le> t \<and> t < ?hi" for t
  proof -
    obtain b where "b \<in> set base" "activeAt t b"
      using gapless_covers [OF gapless ne] t by blast
    then have "assignedAt base t \<noteq> []"
      by (auto simp: assignedAt_def filter_empty_conv)
    moreover have "\<forall>ov \<in> set (sort_key start_at overrides). start_at ov \<le> end_at ov"
      using assms(3) by (auto simp: wellFormed_def)
    ultimately have "assignedAt ?R t \<noteq> []"
      unfolding applyOverrides_def by (intro overrideLoop_covers)
    then show ?thesis by (auto simp: assignedAt_def filter_empty_conv)
  qed
  have "successively (\<lambda>a b. end_at a = start_at b) (withinRange ?lo ?hi ?R)"
    using ord cov by (intro withinRange_gapless) auto
  moreover have "sorted (map start_at (withinRange ?lo ?hi ?R))"
    using ord by (intro ordered_sorted_start ordered_withinRange)
  moreover have "length (filter (activeAt t) ?R) = 1" if t: "?lo \<le> t \<and> t < ?hi" for t
  proof -
    have "filter (activeAt t) ?R \<noteq> []" using cov [OF t] by (auto simp: filter_empty_conv)
    then have "0 < length (filter (activeAt t) ?R)" by simp
    with ordered_active_le1 [OF ord, of t] show ?thesis by linarith
  qed
  ultimately show ?thesis using valid dates stored by (simp add: validSchedule_def)
qed

theorem schedule_validity_witness:
  "generateBaseSchedule exampleConfig 1735689600000 1735862400000
     = Some (Inr [\<lparr>user = Some ''A'', start_at = 1735689600000, end_at = 1735776000000\<rparr>,
                  \<lparr>user = Some ''B'', start_at = 1735776000000, end_at = 1735862400000\<rparr>])
   \<and> wellFormed exampleOverride
   \<and> exactRange exampleConfig 1735689600000 1735862400000
   \<and> validSchedule
        (withinRange 1735689600000 1735862400000
           (applyOverrides
              [\<lparr>user = Some ''A'', start_at = 1735689600000, end_at = 1735776000000\<rparr>,
               \<lparr>user = Some ''B'', start_at = 1735776000000, end_at = 1735862400000\<rparr>]
              [exampleOverride]))"
  using schedule_validity
    [where config = exampleConfig and fromDate = 1735689600000 and untilDate = 1735862400000
       and base = "[\<lparr>user = Some ''A'', start_at = 1735689600000, end_at = 1735776000000\<rparr>,
                    \<lparr>user = Some ''B'', start_at = 1735776000000, end_at = 1735862400000\<rparr>]"
       and overrides = "[exampleOverride]"]
  by (simp add: example_eval wellFormed_def exactRange_def)

text \<open>
  Claim C1 as stated fails: for a rotation of one day anchored at 1970-01-01T12:00:00Z and
  the first day of the range of valid Dates as the window, the first base shift starts
  half a day before the first valid Date. The program stores an Invalid Date as its
  \<open>start_at\<close>, and no comparison with it holds, so the base schedule is not sorted by
  start.
\<close>

theorem base_schedule_first_start_invalid:
  "generateBaseSchedule
     \<lparr>users = [''A'', ''B''], handover_start_at = 43200000, handover_interval_days = 1\<rparr>
     (- 8640000000000000) (- 8639999913600000)
     = Some (Inr [\<lparr>user = Some ''B'', start_at = - 8640000043200000, end_at = - 8639999956800000\<rparr>,
                  \<lparr>user = Some ''A'', start_at = - 8639999956800000, end_at = - 8639999870400000\<rparr>])
   \<and> newDate (- 8640000043200000) = None
   \<and> \<not> validStored
         [\<lparr>user = Some ''B'', start_at = - 8640000043200000, end_at = - 8639999956800000\<rparr>,
          \<lparr>user = Some ''A'', start_at = - 8639999956800000, end_at = - 8639999870400000\<rparr>]"
  by (simp add: example_eval newDate_def dateLe_def validStored_def)

section \<open>Clipping to the window\<close>

lemma clipShifts_Nil: "clipShifts f u [] = []"
  by (simp add: clipShifts_def meetsWindow_def)

lemma clipShifts_append: "clipShifts f u (xs @ ys) = clipShifts f u xs @ clipShifts f u ys"
  by (simp add: clipShifts_def meetsWindow_def)

lemma clipShifts_Cons: "clipShifts f u (x # xs) = clipShifts f u [x] @ clipShifts f u xs"
  by (simp add: clipShifts_def meetsWindow_def)

lemma clipShifts_single:
  "clipShifts f u [s] = (if meetsWindow f u s then [clipShift f u s] else [])"
  by (simp add: clipShifts_def meetsWindow_def)

lemma truncate_clipShifts:
  "truncateAndFilterSchedule ws f u = map formatShift (clipShifts f u ws)"
  by (induction ws) (auto simp: clipShifts_def meetsWindow_def clipShift_def formatShift_def)

lemma set_clipShifts:
  "set (clipShifts f u ws) = clipShift f u ` {s \<in> set ws. meetsWindow f u s}"
  by (auto simp: clipShifts_def meetsWindow_def)

lemma clipShifts_positive: "x \<in> set (clipShifts f u ws) \<Longrightarrow> start_at x < end_at x"
  by (auto simp: clipShifts_def meetsWindow_def clipShift_def)

lemma ordered_clipShifts: "ordered ws \<Longrightarrow> ordered (clipShifts f u ws)"
proof (induction ws)
  case Nil
  then show ?case by (simp add: clipShifts_Nil ordered_Nil)
next
  case (Cons s ws)
  have "end_at s \<le> start_at y" if "y \<in> set (clipShifts f u ws)" for y
    using that Cons.prems by (auto simp: set_clipShifts clipShift_def ordered_Cons)
  then have "end_at x \<le> start_at y" if "x \<in> set (clipShifts f u [s])" "y \<in> set (clipShifts f u ws)" for x y
    using that by (fastforce simp: set_clipShifts clipShift_def)
  moreover have "ordered (clipShifts f u [s])"
    by (auto simp: clipShifts_def meetsWindow_def clipShift_def ordered_Cons ordered_Nil)
  moreover have "ordered (clipShifts f u ws)" using Cons by (simp add: ordered_Cons)
  ultimately show ?case
    by (subst clipShifts_Cons) (simp only: ordered_append, blast)
qed

lemma ordered_unique:
  assumes "ordered xs" and "ordered ys" and "set xs = set ys"
  shows "xs = ys"
proof -
  have strict: "sorted (map start_at zs) \<and> distinct (map start_at zs)" if "ordered zs" for zs
    using that
  proof (induction zs)
    case Nil
    then show ?case by simp
  next
    case (Cons z zs)
    have "start_at z < start_at b" if "b \<in> set zs" for b
      using Cons.prems that by (force simp: ordered_Cons)
    with Cons show ?case by (force simp: ordered_Cons)
  qed
  have "map start_at xs = map start_at ys"
    using strict [OF assms(1)] strict [OF assms(2)] assms(3)
    by (intro sorted_distinct_set_unique) simp_all
  moreover have "inj_on start_at (set xs \<union> set ys)"
    using strict [OF assms(1)] assms(3) by (simp add: distinct_map)
  ultimately show ?thesis by (simp add: inj_on_map_eq_map)
qed

lemma splitShifts_parts:
  assumes "start_at s < end_at s" and "start_at ov < end_at ov"
  shows "splitShifts ov [s]
     = filter (\<lambda>x. start_at x < end_at x) [beforePart (start_at ov) s, afterPart (end_at ov) s]"
  using assms by (cases s) (auto simp: beforePart_def afterPart_def)

lemma clipShifts_filter_positive:
  "clipShifts f u (filter (\<lambda>x. start_at x < end_at x) xs) = clipShifts f u xs"
  by (induction xs) (auto simp: clipShifts_def meetsWindow_def)

lemma clip_split_parts:
  assumes "start_at s < end_at s" and "start_at ov < end_at ov"
  shows "clipShifts f u (splitShifts ov [s])
     = clipShifts f u [beforePart (start_at ov) s, afterPart (end_at ov) s]"
  by (simp only: splitShifts_parts [OF assms] clipShifts_filter_positive)

lemma clipShift_beforePart:
  "clipShift f u (beforePart b (clipShift f u s)) = clipShift f u (beforePart b s)"
  by (simp add: clipShift_def beforePart_def min.assoc min.commute min.left_commute)

lemma clipShift_afterPart:
  "clipShift f u (afterPart a (clipShift f u s)) = clipShift f u (afterPart a s)"
  by (simp add: clipShift_def afterPart_def max.assoc max.commute max.left_commute)

lemma keep_beforePart:
  "meetsWindow f u s \<Longrightarrow>
   meetsWindow f u (beforePart b (clipShift f u s)) = meetsWindow f u (beforePart b s)"
  by (auto simp: clipShift_def beforePart_def meetsWindow_def)

lemma keep_afterPart:
  "meetsWindow f u s \<Longrightarrow>
   meetsWindow f u (afterPart a (clipShift f u s)) = meetsWindow f u (afterPart a s)"
  by (auto simp: clipShift_def afterPart_def meetsWindow_def)

lemma drop_parts:
  "\<not> meetsWindow f u s \<Longrightarrow>
   \<not> meetsWindow f u (beforePart b s) \<and> \<not> meetsWindow f u (afterPart a s)"
  by (auto simp: beforePart_def afterPart_def meetsWindow_def)

lemma clip_split_one:
  assumes "start_at s < end_at s" and "start_at ov < end_at ov"
  shows "clipShifts f u (splitShifts ov [s]) = clipShifts f u (splitShifts ov (clipShifts f u [s]))"
proof (cases "meetsWindow f u s")
  case True
  let ?c = "clipShift f u s"
  have c: "start_at ?c < end_at ?c" using True by (simp add: clipShift_def meetsWindow_def)
  have "clipShifts f u (splitShifts ov (clipShifts f u [s])) = clipShifts f u (splitShifts ov [?c])"
    using True by (simp add: clipShifts_single)
  also have "\<dots> = clipShifts f u [beforePart (start_at ov) ?c, afterPart (end_at ov) ?c]"
    by (rule clip_split_parts [OF c assms(2)])
  also have "\<dots> = clipShifts f u [beforePart (start_at ov) s, afterPart (end_at ov) s]"
    unfolding clipShifts_def
    by (simp add: keep_beforePart [OF True] keep_afterPart [OF True]
        clipShift_beforePart clipShift_afterPart)
  also have "\<dots> = clipShifts f u (splitShifts ov [s])"
    by (rule clip_split_parts [OF assms, symmetric])
  finally show ?thesis by simp
next
  case False
  have "clipShifts f u (splitShifts ov [s])
      = clipShifts f u [beforePart (start_at ov) s, afterPart (end_at ov) s]"
    by (rule clip_split_parts [OF assms])
  also have "\<dots> = []"
    using drop_parts [OF False] by (simp add: clipShifts_def)
  finally show ?thesis using False by (simp add: clipShifts_single clipShifts_Nil)
qed

lemma clip_split:
  assumes "\<forall>s \<in> set ws. start_at s < end_at s" and "start_at ov < end_at ov"
  shows "clipShifts f u (splitShifts ov ws) = clipShifts f u (splitShifts ov (clipShifts f u ws))"
  using assms(1)
proof (induction ws)
  case Nil
  then show ?case by (simp add: clipShifts_Nil)
next
  case (Cons s ws)
  have "clipShifts f u (splitShifts ov (s # ws))
      = clipShifts f u (splitShifts ov [s]) @ clipShifts f u (splitShifts ov ws)"
    using splitShifts_append [of ov "[s]" ws] by (simp add: clipShifts_append)
  also have "\<dots> = clipShifts f u (splitShifts ov (clipShifts f u [s]))
       @ clipShifts f u (splitShifts ov (clipShifts f u ws))"
    using clip_split_one [OF _ assms(2), of s] Cons by simp
  also have "\<dots> = clipShifts f u (splitShifts ov (clipShifts f u [s] @ clipShifts f u ws))"
    by (simp only: splitShifts_append clipShifts_append)
  also have "\<dots> = clipShifts f u (splitShifts ov (clipShifts f u (s # ws)))"
    by (simp only: clipShifts_Cons [of f u s ws])
  finally show ?case .
qed

lemma clip_outside_one:
  assumes "start_at ov \<le> end_at ov" and "end_at ov \<le> f \<or> u \<le> start_at ov"
  shows "clipShifts f u (splitShifts ov [s]) = clipShifts f u [s]"
  using assms by (auto simp: clipShifts_def meetsWindow_def clipShift_def)

lemma clip_outside:
  assumes "start_at ov \<le> end_at ov" and "end_at ov \<le> f \<or> u \<le> start_at ov"
  shows "clipShifts f u (splitShifts ov ws) = clipShifts f u ws"
proof (induction ws)
  case Nil
  then show ?case by simp
next
  case (Cons s ws)
  have "clipShifts f u (splitShifts ov (s # ws))
      = clipShifts f u (splitShifts ov [s]) @ clipShifts f u (splitShifts ov ws)"
    using splitShifts_append [of ov "[s]" ws] by (simp add: clipShifts_append)
  then show ?case using clip_outside_one [OF assms] Cons
    by (simp add: clipShifts_Cons [of f u s ws])
qed

lemma set_clip_applyOverride:
  "set (clipShifts f u (applyOverride ws ov))
     = set (clipShifts f u (splitShifts ov ws)) \<union> set (clipShifts f u [ov])"
  by (auto simp: set_clipShifts applyOverride_def)

lemma clip_applyOverride_cong:
  assumes "ordered w1" and "ordered w2" and "clipShifts f u w1 = clipShifts f u w2"
    and "wellFormed ov"
  shows "clipShifts f u (applyOverride w1 ov) = clipShifts f u (applyOverride w2 ov)"
proof (rule ordered_unique)
  show "ordered (clipShifts f u (applyOverride w1 ov))"
    using assms by (intro ordered_clipShifts applyOverride_ordered)
  show "ordered (clipShifts f u (applyOverride w2 ov))"
    using assms by (intro ordered_clipShifts applyOverride_ordered)
  have ov: "start_at ov < end_at ov" using assms(4) by (simp add: wellFormed_def)
  have "clipShifts f u (splitShifts ov w1) = clipShifts f u (splitShifts ov (clipShifts f u w1))"
    using assms(1) ov by (intro clip_split) (simp_all add: ordered_positive)
  also have "\<dots> = clipShifts f u (splitShifts ov (clipShifts f u w2))"
    by (simp only: assms(3))
  also have "\<dots> = clipShifts f u (splitShifts ov w2)"
    using assms(2) ov by (intro clip_split [symmetric]) (simp_all add: ordered_positive)
  finally show "set (clipShifts f u (applyOverride w1 ov)) = set (clipShifts f u (applyOverride w2 ov))"
    by (simp only: set_clip_applyOverride)
qed

lemma clip_applyOverride_outside:
  assumes "ordered ws" and "wellFormed ov" and "end_at ov \<le> f \<or> u \<le> start_at ov"
  shows "clipShifts f u (applyOverride ws ov) = clipShifts f u ws"
proof (rule ordered_unique)
  show "ordered (clipShifts f u (applyOverride ws ov))"
    using assms by (intro ordered_clipShifts applyOverride_ordered)
  show "ordered (clipShifts f u ws)"
    using assms by (intro ordered_clipShifts)
  have ov: "start_at ov \<le> end_at ov" using assms(2) by (simp add: wellFormed_def)
  have "clipShifts f u [ov] = []"
    using assms(3) ov by (auto simp: clipShifts_def meetsWindow_def)
  then show "set (clipShifts f u (applyOverride ws ov)) = set (clipShifts f u ws)"
    unfolding set_clip_applyOverride by (simp add: clip_outside [OF ov assms(3)])
qed

lemma overrideLoop_clip_cong:
  "ordered w1 \<Longrightarrow> ordered w2 \<Longrightarrow> clipShifts f u w1 = clipShifts f u w2 \<Longrightarrow>
   \<forall>ov \<in> set ovs. wellFormed ov \<Longrightarrow>
   clipShifts f u (overrideLoop w1 ovs) = clipShifts f u (overrideLoop w2 ovs)"
proof (induction ovs arbitrary: w1 w2)
  case Nil
  then show ?case by simp
next
  case (Cons ov ovs)
  have wf: "wellFormed ov" "\<forall>ov \<in> set ovs. wellFormed ov" using Cons.prems(4) by simp_all
  have "clipShifts f u (applyOverride w1 ov) = clipShifts f u (applyOverride w2 ov)"
    using Cons.prems(1-3) wf(1) by (rule clip_applyOverride_cong)
  moreover have "ordered (applyOverride w1 ov)" "ordered (applyOverride w2 ov)"
    using Cons.prems wf(1) by (simp_all add: applyOverride_ordered)
  ultimately have "clipShifts f u (overrideLoop (applyOverride w1 ov) ovs)
      = clipShifts f u (overrideLoop (applyOverride w2 ov) ovs)"
    using wf(2) by (intro Cons.IH)
  then show ?case by simp
qed

lemma overrideLoop_append:
  "overrideLoop ws (xs @ ys) = overrideLoop (overrideLoop ws xs) ys"
  by (induction xs arbitrary: ws) simp_all

lemma insort_key_split:
  "sorted (map f xs) \<Longrightarrow> \<exists>as bs. insort_key f x xs = as @ x # bs \<and> xs = as @ bs"
proof (induction xs)
  case Nil
  then show ?case by simp
next
  case (Cons y ys)
  show ?case
  proof (cases "f x \<le> f y")
    case True
    then have "insort_key f x (y # ys) = [] @ x # (y # ys) \<and> y # ys = [] @ (y # ys)" by simp
    then show ?thesis by blast
  next
    case False
    from Cons obtain as bs where "insort_key f x ys = as @ x # bs" "ys = as @ bs" by auto
    with False have "insort_key f x (y # ys) = (y # as) @ x # bs \<and> y # ys = (y # as) @ bs"
      by simp
    then show ?thesis by blast
  qed
qed

lemma insort_key_around:
  "sorted (map f (ps @ x # qs)) \<Longrightarrow>
   \<exists>as bs. insort_key f y (ps @ x # qs) = as @ x # bs \<and> insort_key f y (ps @ qs) = as @ bs"
proof (induction ps)
  case Nil
  show ?case
  proof (cases "f y \<le> f x")
    case True
    have "\<forall>q \<in> set qs. f y \<le> f q" using Nil True by auto
    then have "insort_key f y qs = y # qs" by (rule insort_is_Cons)
    with True have "insort_key f y ([] @ x # qs) = [y] @ x # qs \<and> insort_key f y ([] @ qs) = [y] @ qs"
      by simp
    then show ?thesis by blast
  next
    case False
    then have "insort_key f y ([] @ x # qs) = [] @ x # insort_key f y qs
        \<and> insort_key f y ([] @ qs) = [] @ insort_key f y qs" by simp
    then show ?thesis by blast
  qed
next
  case (Cons p ps)
  show ?case
  proof (cases "f y \<le> f p")
    case True
    then have "insort_key f y ((p # ps) @ x # qs) = (y # p # ps) @ x # qs
        \<and> insort_key f y ((p # ps) @ qs) = (y # p # ps) @ qs" by simp
    then show ?thesis by blast
  next
    case False
    from Cons obtain as bs where
      "insort_key f y (ps @ x # qs) = as @ x # bs" "insort_key f y (ps @ qs) = as @ bs"
      by auto
    with False have "insort_key f y ((p # ps) @ x # qs) = (p # as) @ x # bs
        \<and> insort_key f y ((p # ps) @ qs) = (p # as) @ bs" by simp
    then show ?thesis by blast
  qed
qed

lemma sort_key_around:
  "\<exists>as bs. sort_key f (xs @ x # ys) = as @ x # bs \<and> sort_key f (xs @ ys) = as @ bs"
proof (induction xs)
  case Nil
  show ?case using insort_key_split [of f "sort_key f ys" x] by (simp add: sorted_sort_key)
next
  case (Cons a xs)
  then obtain as bs where ab: "sort_key f (xs @ x # ys) = as @ x # bs" "sort_key f (xs @ ys) = as @ bs"
    by blast
  have "sorted (map f (as @ x # bs))" using ab(1) sorted_sort_key [of f "xs @ x # ys"] by simp
  from insort_key_around [OF this, of a] ab show ?case by simp
qed

section \<open>Overrides that cannot change the output\<close>

lemma makeSchedule_eq:
  "makeSchedule config overrides fromDate untilDate =
     (case generateBaseSchedule config fromDate untilDate of
        None \<Rightarrow> None
      | Some (Inl e) \<Rightarrow> Some (Inl e)
      | Some (Inr baseShifts) \<Rightarrow>
          Some (Inr (map formatShift
             (clipShifts fromDate untilDate (applyOverrides baseShifts overrides)))))"
proof -
  have "map (\<lambda>ov. \<lparr>user = user ov, start_at = start_at ov, end_at = end_at ov\<rparr>) overrides = overrides"
    by (induction overrides) simp_all
  then show ?thesis
    by (simp add: makeSchedule_def truncate_clipShifts split: option.splits sum.splits)
qed

lemma base_ordered:
  "generateBaseSchedule config fromDate untilDate = Some (Inr base) \<Longrightarrow> ordered base"
  using generateBaseSchedule_Inr(2) [of config fromDate untilDate base] shiftsFrom_ordered
  by simp

lemma clip_insert_outside:
  assumes "ordered base" and "\<forall>x \<in> set (ovs1 @ ovs2). wellFormed x" and "wellFormed ov"
    and "end_at ov \<le> f \<or> u \<le> start_at ov"
  shows "clipShifts f u (applyOverrides base (ovs1 @ ov # ovs2))
       = clipShifts f u (applyOverrides base (ovs1 @ ovs2))"
proof -
  obtain as bs where ab: "sort_key start_at (ovs1 @ ov # ovs2) = as @ ov # bs"
    "sort_key start_at (ovs1 @ ovs2) = as @ bs"
    using sort_key_around [of start_at ovs1 ov ovs2] by blast
  have "set (as @ bs) = set (ovs1 @ ovs2)"
    using arg_cong [OF ab(2), of set] by simp
  then have wf: "\<forall>x \<in> set as. wellFormed x" "\<forall>x \<in> set bs. wellFormed x"
    using assms(2) by auto
  let ?w = "overrideLoop base as"
  have w: "ordered ?w" using assms(1) wf(1) by (rule overrideLoop_ordered)
  have "clipShifts f u (applyOverride ?w ov) = clipShifts f u ?w"
    using w assms(3,4) by (rule clip_applyOverride_outside)
  moreover have "ordered (applyOverride ?w ov)" using w assms(3) by (rule applyOverride_ordered)
  ultimately have "clipShifts f u (overrideLoop (applyOverride ?w ov) bs)
      = clipShifts f u (overrideLoop ?w bs)"
    using w wf(2) by (intro overrideLoop_clip_cong)
  then show ?thesis
    by (simp add: applyOverrides_def ab overrideLoop_append)
qed

lemma assignedAt_clipShifts:
  "assignedAt (clipShifts f u ws) t = (if f \<le> t \<and> t < u then assignedAt ws t else [])"
  by (induction ws) (auto simp: assignedAt_def clipShifts_def clipShift_def meetsWindow_def activeAt_def)

lemma overrideLoop_assigned_cong:
  "\<forall>ov \<in> set ovs. start_at ov \<le> end_at ov \<Longrightarrow>
   mset (assignedAt w1 t) = mset (assignedAt w2 t) \<Longrightarrow>
   mset (assignedAt (overrideLoop w1 ovs) t) = mset (assignedAt (overrideLoop w2 ovs) t)"
proof (induction ovs arbitrary: w1 w2)
  case Nil
  then show ?case by simp
next
  case (Cons ov ovs)
  have ov: "start_at ov \<le> end_at ov" and rest: "\<forall>ov \<in> set ovs. start_at ov \<le> end_at ov"
    using Cons.prems(1) by simp_all
  have "mset (assignedAt (applyOverride w1 ov) t) = mset (assignedAt (applyOverride w2 ov) t)"
    by (simp only: assignedAt_applyOverride [OF ov] Cons.prems(2))
  then have "mset (assignedAt (overrideLoop (applyOverride w1 ov) ovs) t)
      = mset (assignedAt (overrideLoop (applyOverride w2 ov) ovs) t)"
    using rest by (intro Cons.IH)
  then show ?case by simp
qed

lemma assigned_insert_zero:
  assumes "\<forall>x \<in> set (ovs1 @ ovs2). start_at x \<le> end_at x" and "start_at z = end_at z"
  shows "mset (assignedAt (applyOverrides base (ovs1 @ z # ovs2)) t)
       = mset (assignedAt (applyOverrides base (ovs1 @ ovs2)) t)"
proof -
  obtain as bs where ab: "sort_key start_at (ovs1 @ z # ovs2) = as @ z # bs"
    "sort_key start_at (ovs1 @ ovs2) = as @ bs"
    using sort_key_around [of start_at ovs1 z ovs2] by blast
  have "set (as @ bs) = set (ovs1 @ ovs2)"
    using arg_cong [OF ab(2), of set] by simp
  then have wf: "\<forall>x \<in> set bs. start_at x \<le> end_at x"
    using assms(1) by auto
  let ?w = "overrideLoop base as"
  have "\<not> activeAt t z" using assms(2) by (simp add: activeAt_def)
  then have "mset (assignedAt (applyOverride ?w z) t) = mset (assignedAt ?w t)"
    using assms(2) by (simp add: assignedAt_applyOverride)
  then have "mset (assignedAt (overrideLoop (applyOverride ?w z) bs) t)
      = mset (assignedAt (overrideLoop ?w bs) t)"
    using wf by (intro overrideLoop_assigned_cong)
  then show ?thesis
    by (simp add: applyOverrides_def ab overrideLoop_append)
qed

lemmas iso_eval =
  dateIso_def toISOString_def yearString_def YearFromDay_def MonthFromDay_def DateFromDay_def
  monthOfMonthIndex_def monthIndex_def dayOfYear_def dayOfYearAt_def yearOfEraAt_def
  dayOfEra_def pad2_def pad3_def pad4_def pad6_def digitChar_def

text \<open>
  Claim C9. Let all overrides be well-formed (\<open>start_at < end_at\<close>). Adding, at any place
  of the list, one more well-formed override that lies outside the window (it ends at or
  before \<open>from\<close>, or starts at or after \<open>until\<close>) does not change the result of
  \<open>makeSchedule\<close>; the override itself produces no entry of the output.
\<close>

theorem override_outside_window:
  assumes "\<forall>x \<in> set (pre @ post). wellFormed x" and "wellFormed ov"
    and "end_at ov \<le> fromDate \<or> untilDate \<le> start_at ov"
  shows "makeSchedule config (pre @ ov # post) fromDate untilDate
           = makeSchedule config (pre @ post) fromDate untilDate
    \<and> truncateAndFilterSchedule [ov] fromDate untilDate = []"
proof -
  have "truncateAndFilterSchedule [ov] fromDate untilDate = []"
    using assms(2,3) by (auto simp: wellFormed_def)
  moreover have "makeSchedule config (pre @ ov # post) fromDate untilDate
           = makeSchedule config (pre @ post) fromDate untilDate"
  proof (cases "generateBaseSchedule config fromDate untilDate")
    case None
    then show ?thesis by (simp add: makeSchedule_eq)
  next
    case (Some r)
    show ?thesis
    proof (cases r)
      case (Inl e)
      with Some show ?thesis by (simp add: makeSchedule_eq)
    next
      case (Inr base)
      with Some have "ordered base" using base_ordered by blast
      from clip_insert_outside [OF this assms] Some Inr show ?thesis
        by (simp add: makeSchedule_eq)
    qed
  qed
  ultimately show ?thesis by simp
qed

theorem override_outside_window_witness:
  "wellFormed exampleOverride
   \<and> wellFormed \<lparr>user = Some ''D'', start_at = 1735862400000, end_at = 1735948800000\<rparr>
   \<and> makeSchedule exampleConfig
        [\<lparr>user = Some ''D'', start_at = 1735862400000, end_at = 1735948800000\<rparr>,
         exampleOverride] 1735689600000 1735862400000
     = makeSchedule exampleConfig [exampleOverride] 1735689600000 1735862400000"
  using override_outside_window
    [where pre = "[]" and post = "[exampleOverride]"
       and ov = "\<lparr>user = Some ''D'', start_at = 1735862400000, end_at = 1735948800000\<rparr>"
       and fromDate = 1735689600000 and untilDate = 1735862400000 and config = exampleConfig]
  by (simp add: wellFormed_def exampleOverride_def)

text \<open>
  Claim C10, as amended. Let all overrides have \<open>start_at \<le> end_at\<close>. Adding, at any
  place of the list, an override of zero duration leaves the assignment of every instant
  unchanged: the clipped schedule that \<open>makeSchedule\<close> formats assigns at every \<open>t\<close> the
  same users, with the same multiplicities, with and without it. No shift of the clipped
  schedule has zero length, so the zero-duration override is never an entry of the
  output. The lists of entries need not be equal.
\<close>

theorem zero_duration_override:
  assumes "\<forall>x \<in> set (pre @ post). start_at x \<le> end_at x" and "start_at z = end_at z"
  shows "mset (assignedAt (clipShifts fromDate untilDate (applyOverrides base (pre @ z # post))) t)
       = mset (assignedAt (clipShifts fromDate untilDate (applyOverrides base (pre @ post))) t)
    \<and> makeSchedule config overrides fromDate untilDate =
        (case generateBaseSchedule config fromDate untilDate of
           None \<Rightarrow> None
         | Some (Inl e) \<Rightarrow> Some (Inl e)
         | Some (Inr baseShifts) \<Rightarrow>
             Some (Inr (map formatShift
                (clipShifts fromDate untilDate (applyOverrides baseShifts overrides)))))
    \<and> (\<forall>s \<in> set (clipShifts fromDate untilDate schedule). start_at s < end_at s)"
  using assigned_insert_zero [OF assms]
  by (simp add: assignedAt_clipShifts clipShifts_positive flip: makeSchedule_eq)

theorem zero_duration_override_witness:
  "mset (assignedAt (clipShifts 1735689600000 1735776000000
          (applyOverrides
             [\<lparr>user = Some ''A'', start_at = 1735689600000, end_at = 1735776000000\<rparr>]
             [\<lparr>user = Some ''C'', start_at = 1735732800000, end_at = 1735732800000\<rparr>]))
          1735732800000)
   = mset (assignedAt (clipShifts 1735689600000 1735776000000
          (applyOverrides
             [\<lparr>user = Some ''A'', start_at = 1735689600000, end_at = 1735776000000\<rparr>] []))
          1735732800000)"
  using zero_duration_override
    [where pre = "[]" and post = "[]"
       and z = "\<lparr>user = Some ''C'', start_at = 1735732800000, end_at = 1735732800000\<rparr>"
       and fromDate = 1735689600000 and untilDate = 1735776000000 and t = 1735732800000
       and base = "[\<lparr>user = Some ''A'', start_at = 1735689600000, end_at = 1735776000000\<rparr>]"]
  by simp

text \<open>
  Claim C10 as stated fails: a zero-duration override at noon of a one-day window splits
  the only entry of the output in two.
\<close>

theorem zero_duration_override_changes_output:
  "makeSchedule exampleConfig
      [\<lparr>user = Some ''C'', start_at = 1735732800000, end_at = 1735732800000\<rparr>]
      1735689600000 1735776000000
   = Some (Inr [\<lparr>user = Some ''A'', start_at = ''2025-01-01T00:00:00Z'',
                  end_at = ''2025-01-01T12:00:00Z''\<rparr>,
                \<lparr>user = Some ''A'', start_at = ''2025-01-01T12:00:00Z'',
                  end_at = ''2025-01-02T00:00:00Z''\<rparr>])
   \<and> makeSchedule exampleConfig [] 1735689600000 1735776000000
   = Some (Inr [\<lparr>user = Some ''A'', start_at = ''2025-01-01T00:00:00Z'',
                  end_at = ''2025-01-02T00:00:00Z''\<rparr>])"
  by (simp add: makeSchedule_def applyOverrides_def applyOverride_def example_eval iso_eval)

section \<open>Truncation and formatting\<close>

lemma isDigit_digitChar: "isDigit (digitChar n)"
proof -
  have "n mod 10 < length ''0123456789''" by simp
  then have "''0123456789'' ! (n mod 10) \<in> set ''0123456789''" by (rule nth_mem)
  then show ?thesis by (simp only: isDigit_def digitChar_def)
qed

lemma digitChar_not_dot: "digitChar n \<noteq> CHR ''.''"
  using isDigit_digitChar [of n] by (auto simp: isDigit_def)

lemma no_dot_pad2: "CHR ''.'' \<notin> set (pad2 n)"
  by (simp add: pad2_def digitChar_not_dot [THEN not_sym])

lemma no_dot_yearString: "CHR ''.'' \<notin> set (yearString y)"
  by (simp add: yearString_def pad4_def pad6_def digitChar_not_dot [THEN not_sym])

lemma takeWhile_until_dot:
  "CHR ''.'' \<notin> set xs \<Longrightarrow> takeWhile (\<lambda>c. c \<noteq> CHR ''.'') (xs @ CHR ''.'' # ys) = xs"
  by (induction xs) auto

lemma dateIso_eq:
  "dateIso t =
     yearString (YearFromDay (t div 86400000)) @ ''-''
     @ pad2 (nat (MonthFromDay (t div 86400000))) @ ''-''
     @ pad2 (nat (DateFromDay (t div 86400000))) @ ''T''
     @ pad2 (nat (t div 3600000 mod 24)) @ '':''
     @ pad2 (nat (t div 60000 mod 60)) @ '':''
     @ pad2 (nat (t div 1000 mod 60)) @ ''Z''"
proof -
  let ?p = "yearString (YearFromDay (t div 86400000)) @ ''-''
     @ pad2 (nat (MonthFromDay (t div 86400000))) @ ''-''
     @ pad2 (nat (DateFromDay (t div 86400000))) @ ''T''
     @ pad2 (nat (t div 3600000 mod 24)) @ '':''
     @ pad2 (nat (t div 60000 mod 60)) @ '':''
     @ pad2 (nat (t div 1000 mod 60))"
  have iso: "toISOString t = ?p @ CHR ''.'' # (pad3 (nat (t mod 1000)) @ ''Z'')"
    by (simp add: toISOString_def)
  have nd: "CHR ''.'' \<notin> set ?p"
    by (simp add: no_dot_pad2 no_dot_yearString)
  have "takeWhile (\<lambda>c. c \<noteq> CHR ''.'') (toISOString t) = ?p"
    by (subst iso) (rule takeWhile_until_dot [OF nd])
  then show ?thesis by (simp add: dateIso_def)
qed

lemma dateIso_seconds: "dateIso t = dateIso (t - t mod 1000)"
proof -
  let ?r = "t - t mod 1000"
  have r: "?r = t div 1000 * 1000" by (simp add: minus_mod_eq_div_mult)
  have "?r div 1000 = t div 1000" by (simp add: r)
  moreover have "?r div 60000 = t div 60000"
  proof -
    have "?r div 60000 = ?r div 1000 div 60" by (simp add: zdiv_zmult2_eq)
    also have "\<dots> = t div 1000 div 60" by (simp add: r)
    also have "\<dots> = t div 60000" by (simp add: zdiv_zmult2_eq)
    finally show ?thesis .
  qed
  moreover have "?r div 3600000 = t div 3600000"
  proof -
    have "?r div 3600000 = ?r div 1000 div 3600" by (simp add: zdiv_zmult2_eq)
    also have "\<dots> = t div 1000 div 3600" by (simp add: r)
    also have "\<dots> = t div 3600000" by (simp add: zdiv_zmult2_eq)
    finally show ?thesis .
  qed
  moreover have "?r div 86400000 = t div 86400000"
  proof -
    have "?r div 86400000 = ?r div 1000 div 86400" by (simp add: zdiv_zmult2_eq)
    also have "\<dots> = t div 1000 div 86400" by (simp add: r)
    also have "\<dots> = t div 86400000" by (simp add: zdiv_zmult2_eq)
    finally show ?thesis .
  qed
  ultimately show ?thesis by (simp only: dateIso_eq)
qed

lemma dateIso_form:
  assumes "0 \<le> YearFromDay (t div 86400000)" and "YearFromDay (t div 86400000) \<le> 9999"
  shows "isoSecondsForm (dateIso t)"
  using assms
  by (simp add: dateIso_eq yearString_def pad2_def pad4_def isoSecondsForm_def isDigit_digitChar)

lemma era_split:
  fixes doe :: int
  assumes "0 \<le> doe" and "doe \<le> 146095"
  obtains b q r where "doe = 36524 * b + 1461 * q + r" "0 \<le> b" "b \<le> 3" "0 \<le> q" "q \<le> 24"
    "0 \<le> r" "r \<le> 1460" "1461 * q + r \<le> 36523"
proof
  let ?b = "doe div 36524" and ?c = "doe mod 36524"
  let ?q = "?c div 1461" and ?r = "?c mod 1461"
  show "doe = 36524 * ?b + 1461 * ?q + ?r" by simp
  show "0 \<le> ?b" using assms by simp
  show "?b \<le> 3" using assms by simp
  show "0 \<le> ?q" by simp
  have c: "0 \<le> ?c" "?c \<le> 36523" by simp_all
  show "?q \<le> 24" using c by simp
  show "0 \<le> ?r" by simp
  show "?r \<le> 1460" by simp
  show "1461 * ?q + ?r \<le> 36523" using c by simp
qed

lemma era_year_small:
  assumes "0 \<le> doe" and "doe \<le> 146095"
  shows "0 \<le> yearOfEraAt doe \<and> yearOfEraAt doe \<le> 399
    \<and> 0 \<le> dayOfYearAt doe (yearOfEraAt doe) \<and> dayOfYearAt doe (yearOfEraAt doe) \<le> 365"
proof -
  obtain b q r where d: "doe = 36524 * b + 1461 * q + r" and b: "0 \<le> b" "b \<le> 3"
    and q: "0 \<le> q" "q \<le> 24" and r: "0 \<le> r" "r \<le> 1460" and qr: "1461 * q + r \<le> 36523"
    using era_split [OF assms] by metis
  define e where "e = (if 1460 \<le> 24 * b + q + r then 1 else 0 :: int)"
  have e: "0 \<le> e" "e \<le> 1" "e = 1 \<Longrightarrow> 1460 \<le> 24 * b + q + r" "e = 0 \<Longrightarrow> 24 * b + q + r < 1460"
    by (simp_all add: e_def split: if_splits)
  have d1: "doe div 1460 = 25 * b + q + e"
  proof (rule int_div_pos_eq)
    show "doe = 1460 * (25 * b + q + e) + (24 * b + q + r - 1460 * e)" using d by simp
    show "0 \<le> 24 * b + q + r - 1460 * e" using e b q r by (cases "e = 1") auto
    show "24 * b + q + r - 1460 * e < 1460" using e b q r by (cases "e = 1") auto
  qed
  have d2: "doe div 36524 = b"
  proof (rule int_div_pos_eq)
    show "doe = 36524 * b + (1461 * q + r)" using d by simp
    show "0 \<le> 1461 * q + r" using q r by simp
    show "1461 * q + r < 36524" using qr by simp
  qed
  have d3: "doe div 146096 = 0" using assms by simp
  define y where "y = (r - e) div 365"
  define p where "p = (r - e) mod 365"
  have re: "r - e = 365 * y + p" by (simp add: y_def p_def)
  have p: "0 \<le> p" "p \<le> 364" by (simp_all add: p_def)
  have re0: "0 \<le> r - e" using e b q r by (cases "e = 1") auto
  have re1: "r - e \<le> 1459" using e b q r by (cases "e = 1") auto
  have y: "0 \<le> y" "y \<le> 3" using re0 re1 re p by linarith+
  have yoe: "yearOfEraAt doe = 100 * b + 4 * q + y"
    unfolding yearOfEraAt_def d1 d2 d3
  proof (rule int_div_pos_eq)
    show "doe - (25 * b + q + e) + b - 0 = 365 * (100 * b + 4 * q + y) + p"
      using d re by simp
  qed (use p in simp_all)
  have y4: "(100 * b + 4 * q + y) div 4 = 25 * b + q"
    by (rule int_div_pos_eq [where r = y]) (use y in simp_all)
  have y100: "(100 * b + 4 * q + y) div 100 = b"
    by (rule int_div_pos_eq [where r = "4 * q + y"]) (use y q in simp_all)
  have doy: "dayOfYearAt doe (yearOfEraAt doe) = p + e"
    unfolding yoe dayOfYearAt_def y4 y100 using d re by simp
  have "0 \<le> yearOfEraAt doe \<and> yearOfEraAt doe \<le> 399"
    unfolding yoe using b q y by simp
  moreover have "0 \<le> dayOfYearAt doe (yearOfEraAt doe) \<and> dayOfYearAt doe (yearOfEraAt doe) \<le> 365"
    unfolding doy using p e by simp
  ultimately show ?thesis by blast
qed

lemma era_year_bounds:
  assumes "0 \<le> doe" and "doe \<le> 146096"
  shows "0 \<le> yearOfEraAt doe \<and> yearOfEraAt doe \<le> 399
    \<and> 0 \<le> dayOfYearAt doe (yearOfEraAt doe) \<and> dayOfYearAt doe (yearOfEraAt doe) \<le> 365"
proof (cases "doe = 146096")
  case True
  then show ?thesis by (simp add: yearOfEraAt_def dayOfYearAt_def)
next
  case False
  then show ?thesis using assms era_year_small [of doe] by simp
qed


lemma digitVal_digitChar: "digitVal (digitChar n) = int (n mod 10)"
proof -
  have "n mod 10 < 10" by simp
  then have "n mod 10 = 0 \<or> n mod 10 = 1 \<or> n mod 10 = 2 \<or> n mod 10 = 3 \<or> n mod 10 = 4
      \<or> n mod 10 = 5 \<or> n mod 10 = 6 \<or> n mod 10 = 7 \<or> n mod 10 = 8 \<or> n mod 10 = 9"
    by arith
  then show ?thesis
    unfolding digitChar_def digitVal_def by (elim disjE) simp_all
qed

lemma numberOf_pad2_raw:
  "numberOf (pad2 n) = 10 * int (n div 10 mod 10) + int (n mod 10)"
  by (simp add: numberOf_def pad2_def digitVal_digitChar)

lemma numberOf_pad4_raw:
  "numberOf (pad4 n) = 10 * (10 * (10 * int (n div 1000 mod 10) + int (n div 100 mod 10))
      + int (n div 10 mod 10)) + int (n mod 10)"
  by (simp add: numberOf_def pad4_def digitVal_digitChar)

lemma decimal_step: "(m::nat) = 10 * (m div 10) + m mod 10"
  by simp

lemma decimal4:
  fixes a b c n x y z :: nat
  assumes "b = 10 * a + x" and "c = 10 * b + y" and "n = 10 * c + z"
  shows "10 * (10 * (10 * int a + int x) + int y) + int z = int n"
  by (simp add: assms)

lemma numberOf_pad2:
  assumes "n < 100"
  shows "numberOf (pad2 n) = int n"
proof -
  have a: "n div 10 mod 10 = n div 10" using assms by simp
  have "numberOf (pad2 n) = 10 * int (n div 10) + int (n mod 10)"
    by (simp only: numberOf_pad2_raw a)
  then show ?thesis using decimal_step [of n] by linarith
qed

lemma numberOf_pad4:
  assumes "n < 10000"
  shows "numberOf (pad4 n) = int n"
proof -
  have a: "n div 1000 mod 10 = n div 1000" using assms by simp
  have "n div 100 div 10 = n div 1000" "n div 10 div 10 = n div 100"
    by (simp_all add: div_mult2_eq [symmetric])
  then have b: "n div 100 = 10 * (n div 1000) + n div 100 mod 10"
    and c: "n div 10 = 10 * (n div 100) + n div 10 mod 10"
    using decimal_step [of "n div 100"] decimal_step [of "n div 10"] by simp_all
  have "numberOf (pad4 n) = 10 * (10 * (10 * int (n div 1000) + int (n div 100 mod 10))
      + int (n div 10 mod 10)) + int (n mod 10)"
    by (simp only: numberOf_pad4_raw a)
  also have "\<dots> = int n"
    using b c decimal_step [of n] by (rule decimal4)
  finally show ?thesis .
qed

lemma day_of_month:
  fixes doy :: int
  assumes "0 \<le> doy" and "doy \<le> 365"
  shows "0 \<le> (5 * doy + 2) div 153 \<and> (5 * doy + 2) div 153 \<le> 11
    \<and> 0 \<le> doy - (153 * ((5 * doy + 2) div 153) + 2) div 5
    \<and> doy - (153 * ((5 * doy + 2) div 153) + 2) div 5 \<le> 30"
proof -
  define mp where "mp = (5 * doy + 2) div 153"
  define r where "r = (5 * doy + 2) mod 153"
  have eq: "5 * doy + 2 = 153 * mp + r" by (simp add: mp_def r_def)
  have r: "0 \<le> r" "r \<le> 152" by (simp_all add: r_def)
  have mp: "0 \<le> mp" "mp \<le> 11" using eq r assms by linarith+
  define k where "k = (153 * mp + 2) div 5"
  define j where "j = (153 * mp + 2) mod 5"
  have eq2: "153 * mp + 2 = 5 * k + j" by (simp add: k_def j_def)
  have j: "0 \<le> j" "j \<le> 4" by (simp_all add: j_def)
  have "mp = 0 \<or> mp = 1 \<or> mp = 2 \<or> mp = 3 \<or> mp = 4 \<or> mp = 5 \<or> mp = 6 \<or> mp = 7
      \<or> mp = 8 \<or> mp = 9 \<or> mp = 10 \<or> mp = 11"
    using mp by arith
  then have "0 \<le> doy - k \<and> doy - k \<le> 30"
    using eq eq2 r j by (elim disjE) simp_all
  then show ?thesis using mp unfolding k_def mp_def by simp
qed
lemma seconds_split:
  fixes s :: int
  shows "s = 86400 * (s div 86400) + 3600 * (s div 3600 mod 24) + 60 * (s div 60 mod 60) + s mod 60"
proof -
  have "s div 60 div 60 = s div 3600" "s div 3600 div 24 = s div 86400"
    by (simp_all add: zdiv_zmult2_eq [symmetric])
  then have a: "s div 60 = 60 * (s div 3600) + s div 60 mod 60"
    and b: "s div 3600 = 24 * (s div 86400) + s div 3600 mod 24"
    using mult_div_mod_eq [of 60 "s div 60"] mult_div_mod_eq [of 24 "s div 3600"] by simp_all
  have c: "s = 60 * (s div 60) + s mod 60" by simp
  have "x = 60 * y + z \<Longrightarrow> y = 60 * u + v \<Longrightarrow> u = 24 * w + k
     \<Longrightarrow> x = 86400 * w + 3600 * k + 60 * v + z" for x y z u v w k :: int
    by simp
  from this [OF c a b] show ?thesis .
qed

lemma dayOfEra_bounds: "0 \<le> dayOfEra d \<and> dayOfEra d \<le> 146096"
  by (simp add: dayOfEra_def)

lemma dayOfYear_bounds: "0 \<le> dayOfYear d \<and> dayOfYear d \<le> 365"
  using era_year_bounds [of "dayOfEra d"] dayOfEra_bounds [of d] by (simp add: dayOfYear_def)

lemma monthIndex_bounds: "0 \<le> monthIndex d \<and> monthIndex d \<le> 11"
  using day_of_month [of "dayOfYear d"] dayOfYear_bounds [of d] by (simp add: monthIndex_def)

lemma MonthFromDay_bounds: "1 \<le> MonthFromDay d \<and> MonthFromDay d \<le> 12"
  using monthIndex_bounds [of d] by (simp add: MonthFromDay_def monthOfMonthIndex_def)

lemma DateFromDay_bounds: "1 \<le> DateFromDay d \<and> DateFromDay d \<le> 31"
  using day_of_month [of "dayOfYear d"] dayOfYear_bounds [of d]
  by (simp add: DateFromDay_def monthIndex_def)

lemma monthIndexOf_MonthFromDay: "monthIndexOf (MonthFromDay d) = monthIndex d"
  using monthIndex_bounds [of d]
  by (simp add: monthIndexOf_def MonthFromDay_def monthOfMonthIndex_def)

lemma dayOfYearOf_inverse: "dayOfYearOf (MonthFromDay d) (DateFromDay d) = dayOfYear d"
  by (simp add: dayOfYearOf_def monthIndexOf_MonthFromDay DateFromDay_def)

lemma yearFromMarch_inverse:
  "yearFromMarch (YearFromDay d) (MonthFromDay d)
     = yearOfEraAt (dayOfEra d) + (d + 719468) div 146097 * 400"
  by (simp add: yearFromMarch_def YearFromDay_def)

lemma daysFromCivil_inverse:
  "daysFromCivil (YearFromDay d) (MonthFromDay d) (DateFromDay d) = d"
proof -
  let ?yoe = "yearOfEraAt (dayOfEra d)" and ?era = "(d + 719468) div 146097"
  have yoe: "0 \<le> ?yoe" "?yoe < 400"
    using era_year_bounds [of "dayOfEra d"] dayOfEra_bounds [of d] by simp_all
  have q: "(?yoe + ?era * 400) div 400 = ?era"
    by (rule int_div_pos_eq [where r = ?yoe]) (use yoe in simp_all)
  have r: "(?yoe + ?era * 400) mod 400 = ?yoe"
    by (rule int_mod_pos_eq [where q = ?era]) (use yoe in simp_all)
  have "daysFromCivil (YearFromDay d) (MonthFromDay d) (DateFromDay d)
      = ?era * 146097 + (365 * ?yoe + ?yoe div 4 - ?yoe div 100 + dayOfYear d) - 719468"
    by (simp only: daysFromCivil_def yearFromMarch_inverse dayOfYearOf_inverse q r)
  also have "\<dots> = ?era * 146097 + dayOfEra d - 719468"
    by (simp add: dayOfYear_def dayOfYearAt_def)
  also have "\<dots> = d"
    using div_mult_mod_eq [of "d + 719468" 146097] by (simp add: dayOfEra_def)
  finally show ?thesis .
qed

lemma numberOf_pad2_int:
  assumes "0 \<le> k" and "k < 100"
  shows "numberOf (pad2 (nat k)) = k"
proof -
  have "nat k < 100" using assms by linarith
  then have "numberOf (pad2 (nat k)) = int (nat k)" by (rule numberOf_pad2)
  then show ?thesis using assms by simp
qed

lemma numberOf_pad4_int:
  assumes "0 \<le> k" and "k < 10000"
  shows "numberOf (pad4 (nat k)) = k"
proof -
  have "nat k < 10000" using assms by linarith
  then have "numberOf (pad4 (nat k)) = int (nat k)" by (rule numberOf_pad4)
  then show ?thesis using assms by simp
qed

lemma instantOfIso_dateIso:
  assumes "fourDigitYear t"
  shows "instantOfIso (dateIso t) = t - t mod 1000"
proof -
  let ?d = "t div 86400000" and ?s = "t div 1000"
  let ?Y = "YearFromDay ?d" and ?M = "MonthFromDay ?d" and ?D = "DateFromDay ?d"
  let ?h = "t div 3600000 mod 24" and ?m = "t div 60000 mod 60" and ?sec = "t div 1000 mod 60"
  have Y: "0 \<le> ?Y" "?Y \<le> 9999" using assms by (simp_all add: fourDigitYear_def)
  have str: "dateIso t = pad4 (nat ?Y) @ ''-'' @ pad2 (nat ?M) @ ''-'' @ pad2 (nat ?D) @ ''T''
      @ pad2 (nat ?h) @ '':'' @ pad2 (nat ?m) @ '':'' @ pad2 (nat ?sec) @ ''Z''"
    using Y by (simp add: dateIso_eq yearString_def)
  have "instantOfIso (dateIso t)
      = (((daysFromCivil (numberOf (pad4 (nat ?Y))) (numberOf (pad2 (nat ?M)))
             (numberOf (pad2 (nat ?D))) * 24
           + numberOf (pad2 (nat ?h))) * 60 + numberOf (pad2 (nat ?m))) * 60
         + numberOf (pad2 (nat ?sec))) * 1000"
    unfolding str by (simp add: instantOfIso_def pad2_def pad4_def)
  moreover have "numberOf (pad4 (nat ?Y)) = ?Y" using Y by (intro numberOf_pad4_int) simp_all
  moreover have "numberOf (pad2 (nat ?M)) = ?M"
    using MonthFromDay_bounds [of ?d] by (intro numberOf_pad2_int) simp_all
  moreover have "numberOf (pad2 (nat ?D)) = ?D"
    using DateFromDay_bounds [of ?d] by (intro numberOf_pad2_int) simp_all
  moreover have "numberOf (pad2 (nat ?h)) = ?h" by (intro numberOf_pad2_int) simp_all
  moreover have "numberOf (pad2 (nat ?m)) = ?m" by (intro numberOf_pad2_int) simp_all
  moreover have "numberOf (pad2 (nat ?sec)) = ?sec" by (intro numberOf_pad2_int) simp_all
  ultimately have "instantOfIso (dateIso t) = (((?d * 24 + ?h) * 60 + ?m) * 60 + ?sec) * 1000"
    by (simp only: daysFromCivil_inverse)
  moreover have "?d = ?s div 86400" "t div 3600000 = ?s div 3600" "t div 60000 = ?s div 60"
    by (simp_all add: zdiv_zmult2_eq [symmetric])
  ultimately have "instantOfIso (dateIso t)
      = (86400 * (?s div 86400) + 3600 * (?s div 3600 mod 24) + 60 * (?s div 60 mod 60)
           + ?s mod 60) * 1000"
    by (simp only:) (simp add: algebra_simps)
  also have "\<dots> = ?s * 1000" by (simp only: seconds_split [symmetric])
  also have "\<dots> = t - t mod 1000" by (simp add: minus_mod_eq_div_mult)
  finally show ?thesis .
qed

lemma truncate_filter_map:
  "truncateAndFilterSchedule schedule f u =
     map (\<lambda>s. \<lparr>user = user s, start_at = dateIso (max (start_at s) f),
                 end_at = dateIso (min (end_at s) u)\<rparr>)
       (filter (\<lambda>s. \<not> (start_at s \<ge> u \<or> end_at s \<le> f)
                   \<and> \<not> (max (start_at s) f \<ge> min (end_at s) u)) schedule)"
  by (induction schedule) auto

lemma sorted_clipped_starts:
  "sorted (map start_at schedule) \<Longrightarrow>
   sorted (map (\<lambda>s. max (start_at s) f) (filter P schedule))"
proof (induction schedule)
  case Nil
  then show ?case by simp
next
  case (Cons x xs)
  have "max (start_at x) f \<le> max (start_at y) f" if "y \<in> set xs" for y
  proof -
    have "start_at x \<le> start_at y" using Cons.prems that by simp
    then show ?thesis by (intro max.mono) simp_all
  qed
  moreover have "sorted (map (\<lambda>s. max (start_at s) f) (filter P xs))"
    using Cons by simp
  ultimately show ?case by simp
qed

lemmas parse_eval =
  instantOfIso_def daysFromCivil_def dayOfYearOf_def monthIndexOf_def yearFromMarch_def
  numberOf_def digitVal_def

lemma floor_second_le: "t - t mod 1000 \<le> (t::int)"
  by simp

lemma floor_second_mono: "(a::int) \<le> b \<Longrightarrow> a - a mod 1000 \<le> b - b mod 1000"
proof -
  assume "a \<le> b"
  then have "a div 1000 \<le> b div 1000" by (rule zdiv_mono1) simp
  then show ?thesis by (simp add: minus_mod_eq_div_mult)
qed

lemma truncate_member:
  assumes "x \<in> set (truncateAndFilterSchedule schedule f u)"
  shows "\<exists>s \<in> set schedule. max (start_at s) f < min (end_at s) u
    \<and> start_at x = dateIso (max (start_at s) f) \<and> end_at x = dateIso (min (end_at s) u)"
  using assms
proof (induction schedule)
  case Nil
  then show ?case by simp
next
  case (Cons a schedule)
  show ?case
  proof (cases "x \<in> set (truncateAndFilterSchedule schedule f u)")
    case True
    then show ?thesis using Cons.IH by auto
  next
    case False
    with Cons.prems have "max (start_at a) f < min (end_at a) u"
      and "x = \<lparr>user = user a, start_at = dateIso (max (start_at a) f),
                 end_at = dateIso (min (end_at a) u)\<rparr>"
      by (auto split: if_splits)
    then show ?thesis by simp
  qed
qed

lemma output_bounds:
  assumes "fourDigitYears schedule f u"
    and "x \<in> set (truncateAndFilterSchedule schedule f u)"
  shows "isoSecondsForm (start_at x) \<and> isoSecondsForm (end_at x)
    \<and> f - f mod 1000 \<le> instantOfIso (start_at x)
    \<and> instantOfIso (start_at x) \<le> instantOfIso (end_at x)
    \<and> instantOfIso (end_at x) \<le> u"
proof -
  from truncate_member [OF assms(2)]
  obtain s where s: "s \<in> set schedule" "max (start_at s) f < min (end_at s) u"
    "start_at x = dateIso (max (start_at s) f)" "end_at x = dateIso (min (end_at s) u)"
    by blast
  let ?a = "max (start_at s) f" and ?b = "min (end_at s) u"
  have y: "fourDigitYear ?a" "fourDigitYear ?b"
    using assms(1) s(1) by (simp_all add: fourDigitYears_def list_all_iff)
  have form: "isoSecondsForm (dateIso ?a)" "isoSecondsForm (dateIso ?b)"
    using y by (simp_all add: fourDigitYear_def dateIso_form)
  have ia: "instantOfIso (dateIso ?a) = ?a - ?a mod 1000"
    and ib: "instantOfIso (dateIso ?b) = ?b - ?b mod 1000"
    using y by (simp_all add: instantOfIso_dateIso)
  have "f - f mod 1000 \<le> ?a - ?a mod 1000" by (rule floor_second_mono) simp
  moreover have "?a - ?a mod 1000 \<le> ?b - ?b mod 1000"
    by (rule floor_second_mono) (use s(2) in simp)
  moreover have "?b - ?b mod 1000 \<le> u"
    using floor_second_le [of ?b] by simp
  ultimately show ?thesis using form unfolding s(3,4) ia ib by blast
qed

lemma output_strict:
  assumes "fourDigitYears schedule f u" and "wholeSeconds schedule f u"
    and "x \<in> set (truncateAndFilterSchedule schedule f u)"
  shows "f \<le> instantOfIso (start_at x)
    \<and> instantOfIso (start_at x) < instantOfIso (end_at x)
    \<and> instantOfIso (end_at x) \<le> u"
proof -
  from truncate_member [OF assms(3)]
  obtain s where s: "s \<in> set schedule" "max (start_at s) f < min (end_at s) u"
    "start_at x = dateIso (max (start_at s) f)" "end_at x = dateIso (min (end_at s) u)"
    by blast
  let ?a = "max (start_at s) f" and ?b = "min (end_at s) u"
  have y: "fourDigitYear ?a" "fourDigitYear ?b"
    using assms(1) s(1) by (simp_all add: fourDigitYears_def list_all_iff)
  have w: "f mod 1000 = 0" "u mod 1000 = 0" "start_at s mod 1000 = 0" "end_at s mod 1000 = 0"
    using assms(2) s(1) by (simp_all add: wholeSeconds_def list_all_iff)
  have "?a mod 1000 = 0" "?b mod 1000 = 0"
    using w by (simp_all add: max_def min_def)
  then have i: "instantOfIso (dateIso ?a) = ?a" "instantOfIso (dateIso ?b) = ?b"
    using y by (simp_all add: instantOfIso_dateIso)
  have "f \<le> ?a" "?b \<le> u" by simp_all
  then show ?thesis using s(2) unfolding s(3,4) i by blast
qed

lemma output_sorted:
  assumes "fourDigitYears schedule f u" and "sorted (map start_at schedule)"
  shows "sorted (map (\<lambda>x. instantOfIso (start_at x)) (truncateAndFilterSchedule schedule f u))"
proof -
  let ?P = "\<lambda>s. \<not> (start_at s \<ge> u \<or> end_at s \<le> f) \<and> \<not> (max (start_at s) f \<ge> min (end_at s) u)"
  let ?kept = "filter ?P schedule"
  have "sorted (map (\<lambda>s. max (start_at s) f) ?kept)"
    using assms(2) by (rule sorted_clipped_starts)
  then have "sorted_wrt (\<lambda>a b. max (start_at a) f \<le> max (start_at b) f) ?kept"
    by (simp add: sorted_map)
  then have "sorted_wrt (\<lambda>a b. instantOfIso (dateIso (max (start_at a) f))
      \<le> instantOfIso (dateIso (max (start_at b) f))) ?kept"
  proof (rule sorted_wrt_mono_rel [rotated])
    fix a b
    assume "a \<in> set ?kept" "b \<in> set ?kept" and le: "max (start_at a) f \<le> max (start_at b) f"
    then have "fourDigitYear (max (start_at a) f)" "fourDigitYear (max (start_at b) f)"
      using assms(1) by (simp_all add: fourDigitYears_def list_all_iff)
    then show "instantOfIso (dateIso (max (start_at a) f))
        \<le> instantOfIso (dateIso (max (start_at b) f))"
      using floor_second_mono [OF le] by (simp add: instantOfIso_dateIso)
  qed
  then show ?thesis
    by (simp add: truncate_filter_map sorted_map comp_def)
qed

text \<open>
  Claim C8, as amended. \<open>truncateAndFilterSchedule\<close> keeps, in their order, the shifts that
  overlap the window and whose clipped interval \<open>[max start from, min end until)\<close> is not
  empty, and emits for each of them its user with the two clipped boundaries formatted by
  \<open>dateIso\<close>. The clipped boundaries of every emitted shift satisfy
  \<open>from \<le> start < end \<le> until\<close>, and their order is ascending when that of the input is.
  \<open>dateIso\<close> drops the milliseconds; for an instant whose year has four digits its result
  has the form \<^verbatim>\<open>YYYY-MM-DDTHH:MM:SSZ\<close> and denotes that instant truncated to the second.
  So, when the clipped boundaries have four-digit years, every output shift has two
  timestamps of that form, and the instants they denote satisfy
  \<open>from\<close> truncated to the second \<open>\<le> start_at \<le> end_at \<le> until\<close>; they satisfy
  \<open>from \<le> start_at < end_at \<le> until\<close> when the window and the shifts begin and end on
  whole seconds; and the denoted starts of the output are ascending when the starts of the
  input are.
\<close>

theorem truncation_correct:
  "truncateAndFilterSchedule schedule fromDate untilDate =
     map (\<lambda>s. \<lparr>user = user s, start_at = dateIso (max (start_at s) fromDate),
                 end_at = dateIso (min (end_at s) untilDate)\<rparr>)
       (filter (\<lambda>s. \<not> (start_at s \<ge> untilDate \<or> end_at s \<le> fromDate)
                   \<and> \<not> (max (start_at s) fromDate \<ge> min (end_at s) untilDate)) schedule)
   \<and> (\<forall>s \<in> set schedule.
         \<not> (start_at s \<ge> untilDate \<or> end_at s \<le> fromDate)
         \<and> \<not> (max (start_at s) fromDate \<ge> min (end_at s) untilDate) \<longrightarrow>
         fromDate \<le> max (start_at s) fromDate
         \<and> max (start_at s) fromDate < min (end_at s) untilDate
         \<and> min (end_at s) untilDate \<le> untilDate)
   \<and> (sorted (map start_at schedule) \<longrightarrow>
         sorted (map (\<lambda>s. max (start_at s) fromDate)
           (filter (\<lambda>s. \<not> (start_at s \<ge> untilDate \<or> end_at s \<le> fromDate)
                       \<and> \<not> (max (start_at s) fromDate \<ge> min (end_at s) untilDate))
              schedule)))
   \<and> dateIso t = dateIso (t - t mod 1000)
   \<and> (fourDigitYear t \<longrightarrow>
         isoSecondsForm (dateIso t) \<and> instantOfIso (dateIso t) = t - t mod 1000)
   \<and> (fourDigitYears schedule fromDate untilDate \<longrightarrow>
         (\<forall>x \<in> set (truncateAndFilterSchedule schedule fromDate untilDate).
            isoSecondsForm (start_at x) \<and> isoSecondsForm (end_at x)
            \<and> fromDate - fromDate mod 1000 \<le> instantOfIso (start_at x)
            \<and> instantOfIso (start_at x) \<le> instantOfIso (end_at x)
            \<and> instantOfIso (end_at x) \<le> untilDate)
         \<and> (wholeSeconds schedule fromDate untilDate \<longrightarrow>
              (\<forall>x \<in> set (truncateAndFilterSchedule schedule fromDate untilDate).
                 fromDate \<le> instantOfIso (start_at x)
                 \<and> instantOfIso (start_at x) < instantOfIso (end_at x)
                 \<and> instantOfIso (end_at x) \<le> untilDate))
         \<and> (sorted (map start_at schedule) \<longrightarrow>
              sorted (map (\<lambda>x. instantOfIso (start_at x))
                (truncateAndFilterSchedule schedule fromDate untilDate))))"
proof -
  have "dateIso t = dateIso (t - t mod 1000)" by (rule dateIso_seconds)
  moreover have "\<forall>s \<in> set schedule.
         \<not> (start_at s \<ge> untilDate \<or> end_at s \<le> fromDate)
         \<and> \<not> (max (start_at s) fromDate \<ge> min (end_at s) untilDate) \<longrightarrow>
         fromDate \<le> max (start_at s) fromDate
         \<and> max (start_at s) fromDate < min (end_at s) untilDate
         \<and> min (end_at s) untilDate \<le> untilDate"
    by auto
  moreover have "fourDigitYear t \<longrightarrow>
      isoSecondsForm (dateIso t) \<and> instantOfIso (dateIso t) = t - t mod 1000"
    by (simp add: instantOfIso_dateIso) (simp add: fourDigitYear_def dateIso_form)
  ultimately show ?thesis
    using truncate_filter_map [of schedule fromDate untilDate]
      sorted_clipped_starts [of schedule fromDate]
      output_bounds [of schedule fromDate untilDate]
      output_strict [of schedule fromDate untilDate]
      output_sorted [of schedule fromDate untilDate]
    by blast
qed

theorem truncation_correct_witness:
  "sorted (map start_at
     [\<lparr>user = Some ''A'', start_at = 1735689600000 :: int, end_at = 1735776000000\<rparr>,
      \<lparr>user = Some ''B'', start_at = 1735776000000, end_at = 1735862400000\<rparr>])
   \<and> fourDigitYears
       [\<lparr>user = Some ''A'', start_at = 1735689600000, end_at = 1735776000000\<rparr>,
        \<lparr>user = Some ''B'', start_at = 1735776000000, end_at = 1735862400000\<rparr>]
       1735732800000 1735776000000
   \<and> wholeSeconds
       [\<lparr>user = Some ''A'', start_at = 1735689600000, end_at = 1735776000000\<rparr>,
        \<lparr>user = Some ''B'', start_at = 1735776000000, end_at = 1735862400000\<rparr>]
       1735732800000 1735776000000
   \<and> truncateAndFilterSchedule
       [\<lparr>user = Some ''A'', start_at = 1735689600000, end_at = 1735776000000\<rparr>,
        \<lparr>user = Some ''B'', start_at = 1735776000000, end_at = 1735862400000\<rparr>]
       1735732800000 1735776000000
     = [\<lparr>user = Some ''A'', start_at = ''2025-01-01T12:00:00Z'',
          end_at = ''2025-01-02T00:00:00Z''\<rparr>]
   \<and> (1735732800000 :: int) \<le> instantOfIso ''2025-01-01T12:00:00Z''
   \<and> instantOfIso ''2025-01-01T12:00:00Z'' < instantOfIso ''2025-01-02T00:00:00Z''
   \<and> instantOfIso ''2025-01-02T00:00:00Z'' \<le> 1735776000000
   \<and> fourDigitYear 1735732800123
   \<and> isoSecondsForm (dateIso 1735732800123)
   \<and> instantOfIso (dateIso 1735732800123) = 1735732800000"
proof -
  let ?schedule =
    "[\<lparr>user = Some ''A'', start_at = 1735689600000 :: int, end_at = 1735776000000\<rparr>,
      \<lparr>user = Some ''B'', start_at = 1735776000000, end_at = 1735862400000\<rparr>]"
  let ?x = "\<lparr>user = Some ''A'', start_at = ''2025-01-01T12:00:00Z'',
             end_at = ''2025-01-02T00:00:00Z''\<rparr>"
  have out: "truncateAndFilterSchedule ?schedule 1735732800000 1735776000000 = [?x]"
    by (simp add: iso_eval)
  have srt: "sorted (map start_at ?schedule)" by simp
  have "fourDigitYear 1735732800000" "fourDigitYear 1735776000000"
    by (simp_all add: fourDigitYear_def iso_eval)
  then have years: "fourDigitYears ?schedule 1735732800000 1735776000000"
    by (simp add: fourDigitYears_def)
  have whole: "wholeSeconds ?schedule 1735732800000 1735776000000"
    by (simp add: wholeSeconds_def)
  have year: "fourDigitYear 1735732800123"
    by (simp add: fourDigitYear_def iso_eval)
  have mem: "?x \<in> set (truncateAndFilterSchedule ?schedule 1735732800000 1735776000000)"
    by (simp only: out list.set insertI1)
  note inst = truncation_correct
    [where schedule = ?schedule and fromDate = 1735732800000 and untilDate = 1735776000000
       and t = 1735732800123]
  note part = inst [THEN conjunct2, THEN conjunct2, THEN conjunct2, THEN conjunct2]
  have "isoSecondsForm (dateIso 1735732800123)
      \<and> instantOfIso (dateIso 1735732800123) = 1735732800123 - 1735732800123 mod 1000"
    by (rule mp [OF part [THEN conjunct1] year])
  moreover have "1735732800000 \<le> instantOfIso (start_at ?x)
      \<and> instantOfIso (start_at ?x) < instantOfIso (end_at ?x)
      \<and> instantOfIso (end_at ?x) \<le> 1735776000000"
    by (rule bspec [OF mp [OF conjunct1 [OF conjunct2 [OF mp [OF part [THEN conjunct2] years]]]
          whole] mem])
  ultimately show ?thesis using out srt years whole year by simp
qed

text \<open>
  Claim C8 as stated fails. For a window from 250 ms to 750 ms after the epoch, the one
  output shift has the same formatted start and end, which denote the instant 0: its
  \<open>start_at\<close> is not before its \<open>end_at\<close>, and it is before \<open>from\<close>. For the first day of
  the year 10000 the boundaries are written with a sign and six digits of year, not in
  the form \<^verbatim>\<open>YYYY-MM-DDTHH:MM:SSZ\<close>.
\<close>

theorem truncation_output_differs:
  "truncateAndFilterSchedule
     [\<lparr>user = Some ''A'', start_at = 0, end_at = 86400000\<rparr>] 250 750
   = [\<lparr>user = Some ''A'', start_at = ''1970-01-01T00:00:00Z'',
        end_at = ''1970-01-01T00:00:00Z''\<rparr>]
   \<and> instantOfIso ''1970-01-01T00:00:00Z'' = 0
   \<and> truncateAndFilterSchedule
       [\<lparr>user = Some ''A'', start_at = 253402300800000, end_at = 253402387200000\<rparr>]
       253402300800000 253402387200000
     = [\<lparr>user = Some ''A'', start_at = ''+010000-01-01T00:00:00Z'',
          end_at = ''+010000-01-02T00:00:00Z''\<rparr>]
   \<and> \<not> isoSecondsForm ''+010000-01-01T00:00:00Z''"
proof -
  have "truncateAndFilterSchedule
     [\<lparr>user = Some ''A'', start_at = 0, end_at = 86400000\<rparr>] 250 750
   = [\<lparr>user = Some ''A'', start_at = ''1970-01-01T00:00:00Z'',
        end_at = ''1970-01-01T00:00:00Z''\<rparr>]"
    by (simp add: iso_eval)
  moreover have "instantOfIso ''1970-01-01T00:00:00Z'' = 0"
    by (simp add: parse_eval)
  moreover have "truncateAndFilterSchedule
       [\<lparr>user = Some ''A'', start_at = 253402300800000, end_at = 253402387200000\<rparr>]
       253402300800000 253402387200000
     = [\<lparr>user = Some ''A'', start_at = ''+010000-01-01T00:00:00Z'',
          end_at = ''+010000-01-02T00:00:00Z''\<rparr>]"
    by (simp add: iso_eval)
  moreover have "\<not> isoSecondsForm ''+010000-01-01T00:00:00Z''"
    by (simp add: isoSecondsForm_def)
  ultimately show ?thesis by blast
qed

end
